(* ===== verification/Wurd_Prelude.thy ===== *)
theory Wurd_Prelude
  imports Main
begin

text \<open>
  Shared vocabulary of the development. The editor keeps its text as a
  \<^verbatim>\<open>std::list<std::string>\<close>; here a line is a \<open>string\<close> and the buffer a
  \<open>string list\<close>. The C++ standard-library operations the sources call on
  lines (\<^verbatim>\<open>std::string::insert\<close>, \<^verbatim>\<open>erase\<close>, \<^verbatim>\<open>substr\<close>, and
  \<^verbatim>\<open>std::list::insert\<close> on the undo text list) are given here once, with their
  out-of-range behaviour (\<^verbatim>\<open>std::out_of_range\<close>) as \<open>None\<close>, together with the
  list lemmas the component proofs share. The collection \<open>line_simps\<close> gathers the
  rewrite rules for these operations.
\<close>

type_synonym line = string
type_synonym buffer = "string list"

named_theorems line_simps "rewrite rules for the string and list operations of the buffer"

subsection \<open>Library operations called by the sources\<close>

text \<open>\<^verbatim>\<open>std::list::insert(it, x)\<close> at the position with index \<open>i\<close>: the new
  element is placed before the element at \<open>i\<close>.\<close>

definition list_insert :: "nat \<Rightarrow> 'a \<Rightarrow> 'a list \<Rightarrow> 'a list" where
  "list_insert i x xs = take i xs @ x # drop i xs"

text \<open>\<^verbatim>\<open>s.insert(pos, t)\<close> with an \<^verbatim>\<open>int\<close> position: a negative \<open>pos\<close>
  converts to a huge \<^verbatim>\<open>size_type\<close>, so both a negative \<open>pos\<close> and
  \<open>pos > s.size()\<close> throw \<^verbatim>\<open>out_of_range\<close>.\<close>

definition str_insert :: "int \<Rightarrow> string \<Rightarrow> string \<Rightarrow> string option" where
  "str_insert pos t s =
     (if 0 \<le> pos \<and> nat pos \<le> length s then Some (take (nat pos) s @ t @ drop (nat pos) s) else None)"

text \<open>\<^verbatim>\<open>s.erase(pos, n)\<close>: removes \<open>min n (size - pos)\<close> characters (a negative
  \<open>n\<close> converts to a count beyond the end), throws as \<open>insert\<close> does.\<close>

definition str_erase :: "int \<Rightarrow> int \<Rightarrow> string \<Rightarrow> string option" where
  "str_erase pos n s =
     (if 0 \<le> pos \<and> nat pos \<le> length s
      then Some (take (nat pos) s @ (if n < 0 then [] else drop (nat pos + nat n) s)) else None)"

text \<open>\<^verbatim>\<open>s.substr(pos)\<close>: the suffix from \<open>pos\<close>, throws as \<open>insert\<close> does.\<close>

definition str_substr :: "int \<Rightarrow> string \<Rightarrow> string option" where
  "str_substr pos s = (if 0 \<le> pos \<and> nat pos \<le> length s then Some (drop (nat pos) s) else None)"

subsection \<open>Structural edits of the line sequence\<close>

text \<open>Line \<open>r\<close> split at column \<open>c\<close> into two lines (the list effect of
  \<^verbatim>\<open>enter()\<close>), and lines \<open>r\<close> and \<open>r + 1\<close> merged into one (the list effect of a
  join).\<close>

definition split_line :: "nat \<Rightarrow> nat \<Rightarrow> buffer \<Rightarrow> buffer" where
  "split_line r c L = take r L @ take c (L ! r) # drop c (L ! r) # drop (Suc r) L"

definition join_lines :: "nat \<Rightarrow> buffer \<Rightarrow> buffer" where
  "join_lines r L = take r L @ (L ! r @ L ! Suc r) # drop (Suc (Suc r)) L"

subsection \<open>Shared lemmas\<close>

lemma list_insert_length [line_simps]: "length (list_insert i x xs) = Suc (length xs)"
  by (simp add: list_insert_def)

lemma str_insert_Some [line_simps]:
  "pos \<le> length s \<Longrightarrow> str_insert (int pos) t s = Some (take pos s @ t @ drop pos s)"
  by (simp add: str_insert_def)

lemma str_erase_Some [line_simps]:
  "pos \<le> length s \<Longrightarrow> str_erase (int pos) (int n) s = Some (take pos s @ drop (pos + n) s)"
  by (simp add: str_erase_def)

lemma str_substr_Some [line_simps]:
  "pos \<le> length s \<Longrightarrow> str_substr (int pos) s = Some (drop pos s)"
  by (simp add: str_substr_def)

lemma length_split_line [line_simps]:
  "r < length L \<Longrightarrow> length (split_line r c L) = Suc (length L)"
  by (simp add: split_line_def)

lemma length_join_lines [line_simps]:
  "Suc r < length L \<Longrightarrow> length (join_lines r L) = length L - 1"
  by (simp add: join_lines_def)

lemma nth_split_line [line_simps]:
  "r < length L \<Longrightarrow> split_line r c L ! r = take c (L ! r)"
  "r < length L \<Longrightarrow> split_line r c L ! Suc r = drop c (L ! r)"
  by (simp_all add: split_line_def nth_append min_def)

lemma nth_join_lines [line_simps]:
  "Suc r < length L \<Longrightarrow> join_lines r L ! r = L ! r @ L ! Suc r"
  by (simp add: join_lines_def nth_append min_def)

text \<open>Splitting a line and joining it again is the identity, and joining two
  lines and splitting at the old end of the first gives them back: the two
  structural edits are inverse to each other.\<close>

lemma join_split_line [line_simps]:
  "r < length L \<Longrightarrow> c \<le> length (L ! r) \<Longrightarrow> join_lines r (split_line r c L) = L"
proof -
  assume r: "r < length L"
  have "join_lines r (split_line r c L) = take r L @ (take c (L ! r) @ drop c (L ! r)) # drop (Suc r) L"
    using r by (simp add: join_lines_def split_line_def nth_append min_def)
  also have "\<dots> = L"
    using r by (simp add: id_take_nth_drop[symmetric])
  finally show ?thesis .
qed

lemma split_join_lines [line_simps]:
  "Suc r < length L \<Longrightarrow> split_line r (length (L ! r)) (join_lines r L) = L"
proof -
  assume r: "Suc r < length L"
  then have "L = take r L @ L ! r # L ! Suc r # drop (Suc (Suc r)) L"
    by (metis Cons_nth_drop_Suc Suc_lessD append_take_drop_id)
  moreover have "split_line r (length (L ! r)) (join_lines r L)
      = take r L @ L ! r # L ! Suc r # drop (Suc (Suc r)) L"
    using r by (simp add: join_lines_def split_line_def nth_append min_def)
  ultimately show ?thesis by simp
qed

text \<open>A character deleted from position \<open>p\<close> of a line that is known as
  \<open>a @ t @ z\<close> afterwards, with \<open>p\<close> inside or at the end of the middle part,
  was at relative position \<open>p - length a\<close> of that part: the fact behind the
  reconstruction of a run of deletions.\<close>

lemma deleted_char_in_segment:
  assumes del: "take p m @ drop (Suc p) m = a @ t @ z"
    and p: "p < length m" "length a \<le> p" "p \<le> length a + length t"
  shows "m = a @ list_insert (p - length a) (m ! p) t @ z"
proof -
  have m: "m = take p m @ m ! p # drop (Suc p) m"
    using p(1) by (simp add: id_take_nth_drop)
  have lp: "length (take p m) = p" using p(1) by simp
  have "take p m = take p (a @ t @ z)"
    using del lp by (metis append_eq_conv_conj)
  also have "\<dots> = a @ take (p - length a) t"
    using p(2,3) by (simp add: take_append)
  finally have tk: "take p m = a @ take (p - length a) t" .
  have "drop (Suc p) m = drop p (a @ t @ z)"
    using del lp by (metis append_eq_conv_conj)
  also have "\<dots> = drop (p - length a) t @ z"
    using p(2,3) by (simp add: drop_append)
  finally have dr: "drop (Suc p) m = drop (p - length a) t @ z" .
  show ?thesis
    by (subst m) (simp add: tk dr list_insert_def)
qed

text \<open>A line cut at \<open>c\<close> and at \<open>c + n\<close> and put together again.\<close>

lemma take_take_drop [line_simps]: "take c xs @ take n (drop c xs) @ drop (c + n) xs = xs"
  by (metis append.assoc append_take_drop_id take_add)

text \<open>Columns pass from the editor's \<open>nat\<close>s to the log's \<^verbatim>\<open>int\<close>s and
  back.\<close>

lemma nat_one_plus_int [simp]: "nat (1 + int n) = Suc n"
  by simp

lemma nat_int_minus_one [simp]: "0 < n \<Longrightarrow> nat (int n - 1) = n - 1"
  by simp

end
