(* ===== verification/Undo.thy ===== *)
theory Undo
  imports Wurd_Prelude
begin

text \<open>
  The undo log of \<^verbatim>\<open>src/Wurd/StudentUndo.cpp\<close>. The log is a
  \<^verbatim>\<open>std::stack<ActData*>\<close>; here it is a list of \<open>actdata\<close> records with the
  top of the stack at the head. \<open>submit\<close> pushes one record, \<open>clear\<close> empties
  the stack, and \<open>get\<close> pops the top record together with the records below it
  that continue the same run of edits (the two batching loops are the functions
  \<open>batch_delete\<close> and \<open>batch_insert\<close>) and returns one inverse action. The
  output parameters \<^verbatim>\<open>row\<close>, \<^verbatim>\<open>col\<close>, \<^verbatim>\<open>count\<close>, \<^verbatim>\<open>text\<close> of
  \<^verbatim>\<open>get\<close> are the record \<open>get_out\<close>, passed in and returned, so that the
  empty-stack case can leave them unchanged as the code does. Rows and columns are
  the code's \<^verbatim>\<open>int\<close>s.
\<close>

section \<open>Data\<close>

text \<open>\<^verbatim>\<open>Undo::Action\<close> (declared in \<^verbatim>\<open>Undo.h\<close>, outside the sources).\<close>

datatype action = ERROR | INSERT | SPLIT | DELETE | JOIN

text \<open>\<^verbatim>\<open>StudentUndo::ActData\<close>.\<close>

record actdata =
  action :: action
  row :: int
  col :: int
  ch :: char

type_synonym undo_stack = "actdata list"

text \<open>The reference parameters \<^verbatim>\<open>int& row, int& col, int& count,
  std::string& text\<close> of \<^verbatim>\<open>get\<close>.\<close>

record get_out =
  out_row :: int
  out_col :: int
  out_count :: int
  out_text :: string

section \<open>Operations\<close>

definition submit :: "action \<Rightarrow> int \<Rightarrow> int \<Rightarrow> char \<Rightarrow> undo_stack \<Rightarrow> undo_stack" where
  "submit a r c x stk = \<lparr>action = a, row = r, col = c, ch = x\<rparr> # stk"

definition clear :: "undo_stack \<Rightarrow> undo_stack" where
  "clear stk = []"

text \<open>
  The loop of the \<^verbatim>\<open>DELETE\<close> branch. \<open>cur\<close> is the record popped last,
  \<open>chs\<close> the character list \<^verbatim>\<open>textList\<close> and \<open>i\<close> the index of the iterator
  \<^verbatim>\<open>lastIns\<close> in it. A record below continues the run when it is a deletion on
  the same row whose column equals \<^verbatim>\<open>cur->col\<close> (a forward delete: its character
  goes in front of \<^verbatim>\<open>lastIns\<close>) or \<^verbatim>\<open>cur->col + 1\<close> (a backspace: its
  character goes behind \<^verbatim>\<open>lastIns\<close>). The code's test
  \<^verbatim>\<open>cur->col == temp->col - 1\<close> is on \<^verbatim>\<open>int\<close>s and is written so here.
\<close>

fun batch_delete :: "actdata \<Rightarrow> char list \<Rightarrow> nat \<Rightarrow> undo_stack \<Rightarrow> char list \<times> undo_stack" where
  "batch_delete cur chs i [] = (chs, [])"
| "batch_delete cur chs i (t # ts) =
     (if action t = action cur then
        (if row cur = row t \<and> (col cur = col t \<or> col cur = col t - 1) then
           (if col cur = col t
            then batch_delete t (list_insert i (ch t) chs) i ts
            else batch_delete t (list_insert (Suc i) (ch t) chs) (Suc i) ts)
         else (chs, t # ts))
      else (chs, t # ts))"

text \<open>The loop of the \<^verbatim>\<open>INSERT\<close> branch: it counts the records of a run of
  characters typed left to right and returns the earliest of them.\<close>

fun batch_insert :: "actdata \<Rightarrow> int \<Rightarrow> undo_stack \<Rightarrow> actdata \<times> int \<times> undo_stack" where
  "batch_insert cur n [] = (cur, n, [])"
| "batch_insert cur n (t # ts) =
     (if action t = action cur then
        (if row cur = row t \<and> col cur = col t + 1
         then batch_insert t (n + 1) ts
         else (cur, n, t # ts))
      else (cur, n, t # ts))"

text \<open>\<^verbatim>\<open>StudentUndo::get\<close>: the whole function, each branch as the code has it.\<close>

fun get :: "get_out \<Rightarrow> undo_stack \<Rightarrow> action \<times> get_out \<times> undo_stack" where
  "get out [] = (ERROR, out, [])"
| "get out (cur # stk) =
     (let out1 = out\<lparr>out_text := [], out_count := 1\<rparr> in
      if action cur = DELETE then
        (let (chs, stk') = batch_delete cur [ch cur] 0 stk
         in (INSERT, out1\<lparr>out_row := row cur, out_col := col cur, out_text := chs\<rparr>, stk'))
      else if action cur = INSERT then
        (let (cur', n, stk') = batch_insert cur 1 stk
         in (DELETE, out1\<lparr>out_row := row cur, out_count := n, out_col := col cur' - 1\<rparr>, stk'))
      else if action cur = SPLIT then
        (JOIN, out1\<lparr>out_row := row cur, out_col := col cur\<rparr>, stk)
      else if action cur = JOIN then
        (SPLIT, out1\<lparr>out_row := row cur, out_col := col cur\<rparr>, stk)
      else (ERROR, out1, stk))"

section \<open>Properties of the batching loops\<close>

text \<open>Both loops pop a prefix of the stack, and what they return accounts for
  every popped record: one character of text, or one unit of the count.\<close>

lemma batch_delete_pops:
  "batch_delete cur chs i ts = (T, rest) \<Longrightarrow>
     \<exists>k. rest = drop k ts \<and> length T = length chs + k"
proof (induction cur chs i ts rule: batch_delete.induct)
  case (1 cur chs i)
  then show ?case by simp
next
  case (2 cur chs i t ts)
  show ?case
  proof (cases "action t = action cur \<and> row cur = row t \<and> (col cur = col t \<or> col cur = col t - 1)")
    case True
    have "\<exists>k. rest = drop k ts \<and> length T = Suc (length chs) + k"
    proof (cases "col cur = col t")
      case True
      with \<open>action t = action cur \<and> _\<close> "2.prems" show ?thesis
        using "2.IH"(1) by (simp add: line_simps)
    next
      case False
      with \<open>action t = action cur \<and> _\<close> "2.prems" show ?thesis
        using "2.IH"(2) by (simp add: line_simps)
    qed
    then obtain k where "rest = drop k ts" "length T = Suc (length chs) + k" by blast
    then show ?thesis by (intro exI [of _ "Suc k"]) simp
  next
    case False
    then show ?thesis using "2.prems" by (intro exI [of _ 0]) (auto split: if_splits)
  qed
qed

lemma batch_insert_pops:
  "batch_insert cur n ts = (cur', n', rest) \<Longrightarrow>
     \<exists>k. rest = drop k ts \<and> n' = n + int k"
proof (induction cur n ts rule: batch_insert.induct)
  case (1 cur n)
  then show ?case by simp
next
  case (2 cur n t ts)
  show ?case
  proof (cases "action t = action cur \<and> row cur = row t \<and> col cur = col t + 1")
    case True
    then obtain k where "rest = drop k ts" "n' = n + 1 + int k"
      using "2.IH" "2.prems" by fastforce
    then show ?thesis by (intro exI [of _ "Suc k"]) simp
  next
    case False
    then show ?thesis using "2.prems" by (intro exI [of _ 0]) (auto split: if_splits)
  qed
qed

text \<open>The record returned by the insertion loop is one of the run: same kind
  and same row as where it started.\<close>

lemma batch_insert_cur:
  "batch_insert cur n ts = (cur', n', rest) \<Longrightarrow> action cur' = action cur \<and> row cur' = row cur"
  by (induction cur n ts rule: batch_insert.induct) (auto split: if_splits)

section \<open>What \<open>get\<close> returns\<close>

text \<open>One lemma per kind of top record: the inverse action, the output
  parameters and the stack left behind, read off the branch of \<open>get\<close>.\<close>

lemma get_DELETE:
  assumes "get out (cur # stk) = (a, out', stk')" "action cur = DELETE"
  shows "a = INSERT \<and> out_row out' = row cur \<and> out_col out' = col cur \<and>
    batch_delete cur [ch cur] 0 stk = (out_text out', stk')"
  using assms by (auto simp: Let_def split: prod.splits)

lemma get_INSERT:
  assumes "get out (cur # stk) = (a, out', stk')" "action cur = INSERT"
  shows "a = DELETE \<and> out_row out' = row cur \<and>
    (\<exists>cur'. batch_insert cur 1 stk = (cur', out_count out', stk') \<and> out_col out' = col cur' - 1)"
  using assms by (auto simp: Let_def split: prod.splits)

lemma get_SPLIT:
  assumes "get out (cur # stk) = (a, out', stk')" "action cur = SPLIT"
  shows "a = JOIN \<and> out_row out' = row cur \<and> out_col out' = col cur \<and> stk' = stk"
  using assms by (auto simp: Let_def)

lemma get_JOIN:
  assumes "get out (cur # stk) = (a, out', stk')" "action cur = JOIN"
  shows "a = SPLIT \<and> out_row out' = row cur \<and> out_col out' = col cur \<and> stk' = stk"
  using assms by (auto simp: Let_def)

section \<open>What one \<open>get\<close> pops and returns\<close>

text \<open>On a non-empty stack \<open>get\<close> pops at least one record, and only a prefix;
  the text it returns for \<open>INSERT\<close> has one character per popped record and the
  count it returns for \<open>DELETE\<close> is the number of popped records.\<close>

lemma get_pops:
  assumes "get out (cur # stk) = (a, out', stk')"
  shows "\<exists>k. stk' = drop k stk \<and> (a = INSERT \<longrightarrow> length (out_text out') = Suc k) \<and>
           (a = DELETE \<longrightarrow> out_count out' = int (Suc k))"
proof (cases "action cur")
  case DELETE
  with get_DELETE [OF assms] batch_delete_pops show ?thesis by fastforce
next
  case INSERT
  with get_INSERT [OF assms] obtain cur' where
    "a = DELETE" "batch_insert cur 1 stk = (cur', out_count out', stk')" by blast
  with batch_insert_pops [OF this(2)] show ?thesis by auto
qed (use assms in \<open>auto simp: Let_def intro: exI [of _ 0]\<close>)

text \<open>\<open>get\<close> reports \<open>ERROR\<close> exactly on an empty stack or an \<open>ERROR\<close> record
  on top; on an empty stack it leaves the output parameters alone.\<close>

lemma get_ERROR_iff:
  "fst (get out stk) = ERROR \<longleftrightarrow> stk = [] \<or> action (hd stk) = ERROR"
  by (cases stk; cases "action (hd stk)") (auto simp: Let_def split: prod.splits)

end
