(* ===== verification/Editor.thy ===== *)
theory Editor
  imports Undo
begin

text \<open>
  The text buffer of \<^verbatim>\<open>src/Wurd/StudentTextEditor.cpp\<close>. Its state is the line
  list \<^verbatim>\<open>m_lines\<close>, the cursor \<^verbatim>\<open>m_r\<close>, \<^verbatim>\<open>m_c\<close>, the list iterator
  \<^verbatim>\<open>m_it\<close> and the undo object reached through \<^verbatim>\<open>getUndo()\<close>. The iterator always
  designates line \<^verbatim>\<open>m_r\<close> (every operation moves the two together), so it is
  represented by the index \<open>m_r\<close>; the undo object is its record stack
  \<open>m_undo\<close>, changed only through \<open>Undo.submit\<close>, \<open>Undo.get\<close> and
  \<open>Undo.clear\<close>. Rows and columns are never negative in the editor and are
  \<open>nat\<close>; they are converted to the undo log's \<^verbatim>\<open>int\<close>s at \<^verbatim>\<open>submit\<close>,
  and a negative value coming back from \<^verbatim>\<open>get\<close> is caught where the code would
  throw.

  The editing operations index lines and characters at the cursor. They are
  written with \<open>take\<close>/\<open>drop\<close>/\<open>!\<close>, which agree with the C++ as long as the
  cursor is inside the buffer; \<open>cursor_ok\<close> states that, and every operation
  keeps it. \<^verbatim>\<open>undo()\<close> is the one operation whose positions come from
  elsewhere (the log); it returns \<open>None\<close> where the C++ throws
  \<^verbatim>\<open>std::out_of_range\<close> or walks the iterator out of the list.
\<close>

section \<open>State\<close>

record editor =
  m_lines :: buffer
  m_r :: nat
  m_c :: nat
  m_undo :: undo_stack

text \<open>\<^verbatim>\<open>TextEditor::Dir\<close> (declared in \<^verbatim>\<open>TextEditor.h\<close>, outside the sources).\<close>

datatype dir = UP | DOWN | LEFT | RIGHT | HOME | END

abbreviation cur_line :: "editor \<Rightarrow> line" where
  "cur_line e \<equiv> m_lines e ! m_r e"

text \<open>The cursor invariant: at least one line, the row a line of the buffer and
  the column at most the length of that line.\<close>

definition cursor_ok :: "editor \<Rightarrow> bool" where
  "cursor_ok e \<longleftrightarrow> m_r e < length (m_lines e) \<and> m_c e \<le> length (cur_line e)"

section \<open>Operations\<close>

text \<open>The constructor: one empty line, the cursor at its start, and the undo object
  given by the caller.\<close>

definition new_editor :: "undo_stack \<Rightarrow> editor" where
  "new_editor u = \<lparr>m_lines = [[]], m_r = 0, m_c = 0, m_undo = u\<rparr>"

definition reset :: "editor \<Rightarrow> editor" where
  "reset e = e\<lparr>m_lines := [[]], m_r := 0, m_c := 0, m_undo := clear (m_undo e)\<rparr>"

text \<open>\<^verbatim>\<open>move\<close>: one equation per direction, the guards as in the code
  (\<^verbatim>\<open>m_lines.size() - 1\<close> is the last row).\<close>

fun move :: "dir \<Rightarrow> editor \<Rightarrow> editor" where
  "move UP e =
     (if m_r e \<noteq> 0 then
        (let r = m_r e - 1 in
         e\<lparr>m_r := r, m_c := (if m_c e > length (m_lines e ! r) then length (m_lines e ! r) else m_c e)\<rparr>)
      else e)"
| "move DOWN e =
     (if m_r e \<noteq> length (m_lines e) - 1 then
        (let r = Suc (m_r e) in
         e\<lparr>m_r := r, m_c := (if m_c e > length (m_lines e ! r) then length (m_lines e ! r) else m_c e)\<rparr>)
      else e)"
| "move LEFT e =
     (if m_c e = 0 \<and> m_r e \<noteq> 0 then
        e\<lparr>m_r := m_r e - 1, m_c := length (m_lines e ! (m_r e - 1))\<rparr>
      else if m_c e \<noteq> 0 then e\<lparr>m_c := m_c e - 1\<rparr>
      else e)"
| "move RIGHT e =
     (if m_c e = length (cur_line e) \<and> m_r e \<noteq> length (m_lines e) - 1 then
        e\<lparr>m_r := Suc (m_r e), m_c := 0\<rparr>
      else if m_c e \<noteq> length (cur_line e) then e\<lparr>m_c := Suc (m_c e)\<rparr>
      else e)"
| "move HOME e = e\<lparr>m_c := 0\<rparr>"
| "move END e = e\<lparr>m_c := length (cur_line e)\<rparr>"

text \<open>\<^verbatim>\<open>del()\<close>: at the end of a line that is not the last, the next line is
  appended to it and a \<^verbatim>\<open>JOIN\<close> at the cursor is logged; elsewhere the character
  at the cursor is erased and a \<^verbatim>\<open>DELETE\<close> at the cursor is logged. The
  \<^verbatim>\<open>ch\<close> of a structural record is the default argument \<^verbatim>\<open>0\<close>.\<close>

definition del :: "editor \<Rightarrow> editor" where
  "del e =
     (let L = m_lines e; r = m_r e; c = m_c e in
      if c = length (L ! r) \<and> r \<noteq> length L - 1 then
        e\<lparr>m_lines := join_lines r L, m_undo := submit JOIN (int r) (int c) (CHR 0x00) (m_undo e)\<rparr>
      else if c \<noteq> length (L ! r) then
        e\<lparr>m_lines := L[r := take c (L ! r) @ drop (Suc c) (L ! r)],
          m_undo := submit DELETE (int r) (int c) (L ! r ! c) (m_undo e)\<rparr>
      else e)"

text \<open>\<^verbatim>\<open>backspace()\<close>: at the start of a line that is not the first, the line
  is appended to the previous one, the cursor moves to the join point and a
  \<^verbatim>\<open>JOIN\<close> there is logged; elsewhere the character before the cursor is erased,
  the column decremented and a \<^verbatim>\<open>DELETE\<close> at the new column logged.\<close>

definition backspace :: "editor \<Rightarrow> editor" where
  "backspace e =
     (let L = m_lines e; r = m_r e; c = m_c e in
      if c = 0 \<and> r \<noteq> 0 then
        (let r' = r - 1; c' = length (L ! r') in
         e\<lparr>m_lines := join_lines r' L, m_r := r', m_c := c',
           m_undo := submit JOIN (int r') (int c') (CHR 0x00) (m_undo e)\<rparr>)
      else if c \<noteq> 0 then
        e\<lparr>m_lines := L[r := take (c - 1) (L ! r) @ drop c (L ! r)], m_c := c - 1,
          m_undo := submit DELETE (int r) (int (c - 1)) (L ! r ! (c - 1)) (m_undo e)\<rparr>
      else e)"

text \<open>\<^verbatim>\<open>insert(ch)\<close> for a character other than a tab: the character goes in
  at the cursor, the column advances and an \<^verbatim>\<open>INSERT\<close> with the new column is
  logged.\<close>

definition insert_one :: "char \<Rightarrow> editor \<Rightarrow> editor" where
  "insert_one x e =
     (let L = m_lines e; r = m_r e; c = m_c e in
      e\<lparr>m_lines := L[r := take c (L ! r) @ x # drop c (L ! r)], m_c := Suc c,
        m_undo := submit INSERT (int r) (int (Suc c)) x (m_undo e)\<rparr>)"

text \<open>\<^verbatim>\<open>insert(ch)\<close>: a tab is four calls \<^verbatim>\<open>insert(' ')\<close>, each of which
  takes the non-tab branch.\<close>

definition insert_ed :: "char \<Rightarrow> editor \<Rightarrow> editor" where
  "insert_ed x e = (if x = CHR 0x09 then (insert_one (CHR '' '') ^^ 4) e else insert_one x e)"

text \<open>\<^verbatim>\<open>enter()\<close>: the \<^verbatim>\<open>SPLIT\<close> record with the cursor before the split
  is logged first, then the line is split and the cursor goes to the start of the
  new line.\<close>

definition enter :: "editor \<Rightarrow> editor" where
  "enter e =
     (let u = submit SPLIT (int (m_r e)) (int (m_c e)) (CHR 0x00) (m_undo e) in
      e\<lparr>m_undo := u, m_lines := split_line (m_r e) (m_c e) (m_lines e), m_r := Suc (m_r e), m_c := 0\<rparr>)"

definition getPos :: "editor \<Rightarrow> int \<times> int" where
  "getPos e = (int (m_r e), int (m_c e))"

text \<open>\<^verbatim>\<open>getLines(startRow, numRows, lines)\<close>: \<open>-1\<close> and the vector untouched on
  bad arguments; otherwise the two iterator loops select \<open>numRows\<close> lines from
  \<open>startRow\<close> on, as many as exist, and the size is returned.\<close>

definition getLines :: "int \<Rightarrow> int \<Rightarrow> string list \<Rightarrow> editor \<Rightarrow> int \<times> string list" where
  "getLines startRow numRows lines e =
     (if startRow < 0 \<or> numRows < 0 \<or> startRow > int (length (m_lines e)) then (-1, lines)
      else (let ls = take (nat numRows) (drop (nat startRow) (m_lines e)) in (int (length ls), ls)))"

text \<open>
  The part of \<^verbatim>\<open>undo()\<close> after \<^verbatim>\<open>get\<close>: the iterator walks to row
  \<open>newRow\<close> (outside the list this is undefined behaviour, \<open>None\<close>), the row is
  set, and the action is applied to the lines without logging. \<^verbatim>\<open>m_c\<close> already
  holds the column written by \<^verbatim>\<open>get\<close>.
\<close>

definition undo_apply :: "action \<Rightarrow> get_out \<Rightarrow> editor \<Rightarrow> editor option" where
  "undo_apply a out e =
     (let L = m_lines e; newRow = out_row out; c = out_col out in
      if newRow < 0 \<or> int (length L) \<le> newRow then None
      else
        (let r = nat newRow; ln = L ! r in
         if a = INSERT then
           map_option (\<lambda>s. e\<lparr>m_r := r, m_c := nat c, m_lines := L[r := s]\<rparr>)
             (str_insert c (out_text out) ln)
         else if a = DELETE then
           map_option (\<lambda>s. e\<lparr>m_r := r, m_c := nat c, m_lines := L[r := s]\<rparr>)
             (str_erase c (out_count out) ln)
         else if a = SPLIT then
           map_option (\<lambda>nl. e\<lparr>m_r := Suc r, m_c := 0,
               m_lines := take r L @ take (nat c) ln # nl # drop (Suc r) L\<rparr>)
             (str_substr c ln)
         else if a = JOIN then
           (if Suc r < length L then
              (let L' = take (Suc r) L @ drop (Suc (Suc r)) L in
               map_option (\<lambda>s. e\<lparr>m_r := r, m_c := nat c, m_lines := L'[r := s]\<rparr>)
                 (str_insert c (L ! Suc r) ln))
            else None)
         else Some (e\<lparr>m_r := r, m_c := nat c\<rparr>)))"

text \<open>\<^verbatim>\<open>undo()\<close>: \<^verbatim>\<open>get\<close> with \<^verbatim>\<open>newRow = 0\<close>, \<^verbatim>\<open>m_c\<close>,
  \<^verbatim>\<open>count = 0\<close> and an empty text; on \<^verbatim>\<open>ERROR\<close> nothing else happens.\<close>

definition undo :: "editor \<Rightarrow> editor option" where
  "undo e =
     (let (a, out, stk) = get \<lparr>out_row = 0, out_col = int (m_c e), out_count = 0, out_text = []\<rparr> (m_undo e)
      in if a \<noteq> ERROR then undo_apply a out (e\<lparr>m_undo := stk\<rparr>)
         else Some (e\<lparr>m_undo := stk, m_c := nat (out_col out)\<rparr>))"

section \<open>The cursor invariant\<close>

text \<open>Every operation other than \<open>undo\<close> keeps the cursor inside the buffer;
  the facts are collected in \<open>cursor_inv\<close>. \<open>undo\<close> keeps it too, given a log
  that explains the buffer (theory \<open>History\<close>).\<close>

named_theorems cursor_inv "operations that keep the cursor inside the buffer"

lemma cursor_ok_new_editor [cursor_inv]: "cursor_ok (new_editor u)"
  by (simp add: cursor_ok_def new_editor_def)

lemma cursor_ok_reset [cursor_inv]: "cursor_ok (reset e)"
  by (simp add: cursor_ok_def reset_def)

lemma cursor_ok_move [cursor_inv]: "cursor_ok e \<Longrightarrow> cursor_ok (move d e)"
  by (cases d) (auto simp: cursor_ok_def Let_def)

lemma cursor_ok_del [cursor_inv]: "cursor_ok e \<Longrightarrow> cursor_ok (del e)"
  by (auto simp: cursor_ok_def del_def Let_def line_simps nth_list_update)

lemma cursor_ok_backspace [cursor_inv]: "cursor_ok e \<Longrightarrow> cursor_ok (backspace e)"
  by (auto simp: cursor_ok_def backspace_def Let_def line_simps nth_list_update)

lemma cursor_ok_insert_one [cursor_inv]: "cursor_ok e \<Longrightarrow> cursor_ok (insert_one x e)"
  by (auto simp: cursor_ok_def insert_one_def Let_def nth_list_update)

lemma cursor_ok_insert_ed [cursor_inv]: "cursor_ok e \<Longrightarrow> cursor_ok (insert_ed x e)"
  by (simp add: insert_ed_def numeral_eq_Suc cursor_ok_insert_one)

lemma cursor_ok_enter [cursor_inv]: "cursor_ok e \<Longrightarrow> cursor_ok (enter e)"
  by (simp add: cursor_ok_def enter_def line_simps)

section \<open>Applying an inverse action\<close>

text \<open>The four branches of \<open>undo_apply\<close> at positions inside the buffer,
  where the C++ neither throws nor leaves the list.\<close>

lemma undo_apply_INSERT:
  assumes "out_row out = int r" "out_col out = int c"
    and "r < length (m_lines e)" "c \<le> length (m_lines e ! r)"
  shows "undo_apply INSERT out e = Some (e\<lparr>m_r := r, m_c := c,
    m_lines := (m_lines e)[r := take c (m_lines e ! r) @ out_text out @ drop c (m_lines e ! r)]\<rparr>)"
  using assms by (simp add: undo_apply_def Let_def line_simps)

lemma undo_apply_DELETE:
  assumes "out_row out = int r" "out_col out = int c" "out_count out = int n"
    and "r < length (m_lines e)" "c \<le> length (m_lines e ! r)"
  shows "undo_apply DELETE out e = Some (e\<lparr>m_r := r, m_c := c,
    m_lines := (m_lines e)[r := take c (m_lines e ! r) @ drop (c + n) (m_lines e ! r)]\<rparr>)"
  using assms by (simp add: undo_apply_def Let_def line_simps)

lemma undo_apply_SPLIT:
  assumes "out_row out = int r" "out_col out = int c"
    and "r < length (m_lines e)" "c \<le> length (m_lines e ! r)"
  shows "undo_apply SPLIT out e = Some (e\<lparr>m_r := Suc r, m_c := 0, m_lines := split_line r c (m_lines e)\<rparr>)"
  using assms by (simp add: undo_apply_def Let_def line_simps split_line_def)

lemma undo_apply_JOIN:
  assumes "out_row out = int r" "out_col out = int (length (m_lines e ! r))"
    and "Suc r < length (m_lines e)"
  shows "undo_apply JOIN out e = Some (e\<lparr>m_r := r, m_c := length (m_lines e ! r),
    m_lines := join_lines r (m_lines e)\<rparr>)"
proof -
  let ?L = "m_lines e"
  have "(take (Suc r) ?L @ drop (Suc (Suc r)) ?L)[r := ?L ! r @ ?L ! Suc r] = join_lines r ?L"
    using assms(3) by (simp add: join_lines_def take_Suc_conv_app_nth list_update_append)
  then show ?thesis
    using assms by (simp add: undo_apply_def Let_def line_simps)
qed

lemma undo_get:
  assumes "get \<lparr>out_row = 0, out_col = int (m_c e), out_count = 0, out_text = []\<rparr> (m_undo e) = (a, out, stk)"
    and "a \<noteq> ERROR"
  shows "undo e = undo_apply a out (e\<lparr>m_undo := stk\<rparr>)"
  using assms by (simp add: undo_def)

lemma undo_empty: "m_undo e = [] \<Longrightarrow> undo e = Some e"
  by (simp add: undo_def)

section \<open>What each edit logs\<close>

text \<open>An edit either changes nothing (the no-op branches at the edges of the
  buffer) or changes the lines and pushes exactly one record on the log.\<close>

lemma line_changes: "r < length L \<Longrightarrow> length s \<noteq> length (L ! r) \<Longrightarrow> L[r := s] \<noteq> L"
  by (metis nth_list_update_eq)

lemma join_lines_changes: "Suc r < length L \<Longrightarrow> join_lines r L \<noteq> L"
proof
  assume "Suc r < length L" "join_lines r L = L"
  then have "length L - 1 = length L" using length_join_lines [of r L] by simp
  with \<open>Suc r < length L\<close> show False by simp
qed

lemma del_logs_one:
  "cursor_ok e \<Longrightarrow> del e = e \<or> (m_lines (del e) \<noteq> m_lines e \<and> tl (m_undo (del e)) = m_undo e \<and> m_undo (del e) \<noteq> [])"
  by (auto simp: del_def Let_def cursor_ok_def submit_def line_changes join_lines_changes)

lemma backspace_logs_one:
  "cursor_ok e \<Longrightarrow> backspace e = e \<or> (m_lines (backspace e) \<noteq> m_lines e \<and> tl (m_undo (backspace e)) = m_undo e \<and> m_undo (backspace e) \<noteq> [])"
  by (auto simp: backspace_def Let_def cursor_ok_def submit_def line_changes join_lines_changes)

lemma insert_one_logs_one:
  "cursor_ok e \<Longrightarrow> m_lines (insert_one x e) \<noteq> m_lines e \<and> tl (m_undo (insert_one x e)) = m_undo e \<and> m_undo (insert_one x e) \<noteq> []"
  by (auto simp: insert_one_def Let_def cursor_ok_def submit_def line_changes)

lemma enter_logs_one:
  "cursor_ok e \<Longrightarrow> m_lines (enter e) \<noteq> m_lines e \<and> tl (m_undo (enter e)) = m_undo e \<and> m_undo (enter e) \<noteq> []"
  by (auto simp: enter_def cursor_ok_def submit_def dest: arg_cong [where f = length] simp: line_simps)

end
