(* ===== verification/History.thy ===== *)
theory History
  imports Editor
begin

text \<open>
  The contract between the editor and the undo log (spec sections 3 and 4.2): a
  record says which edit was made and where. \<open>redo_at\<close> gives that meaning as a
  partial function on buffers (\<open>None\<close> when the record does not fit the buffer),
  \<open>replay L0 stk\<close> runs the records of a stack from the bottom up over \<open>L0\<close>, and
  a log explains an editor state when replaying it over the buffer of the last
  \<^verbatim>\<open>load\<close>/\<^verbatim>\<open>reset\<close> gives the current buffer. Each editing operation extends an
  explaining log by exactly the edit it made, and \<open>undo\<close> turns the buffer back
  into the one its remaining log explains: \<open>undo\<close> refines "go back to an earlier
  version of the buffer".
\<close>

section \<open>The meaning of a record\<close>

text \<open>A record \<open>(kind, r, c, x)\<close> on row \<open>r\<close>: \<^verbatim>\<open>INSERT\<close> put \<open>x\<close> at
  column \<open>c - 1\<close> (the column is the one after the insertion), \<^verbatim>\<open>DELETE\<close>
  removed the \<open>x\<close> at column \<open>c\<close>, \<^verbatim>\<open>SPLIT\<close> split the row at \<open>c\<close>,
  \<^verbatim>\<open>JOIN\<close> appended row \<open>r + 1\<close> to row \<open>r\<close>, whose length was \<open>c\<close>.\<close>

fun redo_at :: "action \<Rightarrow> nat \<Rightarrow> nat \<Rightarrow> char \<Rightarrow> buffer \<Rightarrow> buffer option" where
  "redo_at INSERT r c x L =
     (if r < length L \<and> 1 \<le> c \<and> c - 1 \<le> length (L ! r)
      then Some (L[r := take (c - 1) (L ! r) @ x # drop (c - 1) (L ! r)]) else None)"
| "redo_at DELETE r c x L =
     (if r < length L \<and> c < length (L ! r) \<and> L ! r ! c = x
      then Some (L[r := take c (L ! r) @ drop (Suc c) (L ! r)]) else None)"
| "redo_at SPLIT r c x L =
     (if r < length L \<and> c \<le> length (L ! r) then Some (split_line r c L) else None)"
| "redo_at JOIN r c x L =
     (if Suc r < length L \<and> c = length (L ! r) then Some (join_lines r L) else None)"
| "redo_at ERROR r c x L = None"

definition redo :: "actdata \<Rightarrow> buffer \<Rightarrow> buffer option" where
  "redo a L = (if row a < 0 \<or> col a < 0 then None
               else redo_at (action a) (nat (row a)) (nat (col a)) (ch a) L)"

fun replay :: "buffer \<Rightarrow> undo_stack \<Rightarrow> buffer option" where
  "replay L0 [] = Some L0"
| "replay L0 (a # stk) = (case replay L0 stk of None \<Rightarrow> None | Some L \<Rightarrow> redo a L)"

definition explains :: "buffer \<Rightarrow> editor \<Rightarrow> bool" where
  "explains L0 e \<longleftrightarrow> replay L0 (m_undo e) = Some (m_lines e)"

section \<open>Reading records back\<close>

lemma replay_Cons_Some:
  "replay L0 (a # stk) = Some L \<longleftrightarrow> (\<exists>M. replay L0 stk = Some M \<and> redo a M = Some L)"
  by (simp split: option.split)

lemma redo_Some:
  assumes "redo a M = Some L"
  obtains r c where "row a = int r" "col a = int c" "redo_at (action a) r c (ch a) M = Some L"
proof -
  from assms have "0 \<le> row a" "0 \<le> col a" "redo_at (action a) (nat (row a)) (nat (col a)) (ch a) M = Some L"
    by (simp_all add: redo_def split: if_splits)
  then show thesis by (intro that [of "nat (row a)" "nat (col a)"]) simp_all
qed

lemma redo_int [simp]: "redo \<lparr>action = k, row = int r, col = int c, ch = x\<rparr> L = redo_at k r c x L"
  by (simp add: redo_def)

text \<open>Inversion of \<open>redo_at\<close>, one rule per kind.\<close>

lemma redo_at_INSERT_Some:
  "redo_at INSERT r c x M = Some L \<longleftrightarrow>
     r < length M \<and> 1 \<le> c \<and> c - 1 \<le> length (M ! r) \<and>
     L = M[r := take (c - 1) (M ! r) @ x # drop (c - 1) (M ! r)]"
  by auto

lemma redo_at_DELETE_Some:
  "redo_at DELETE r c x M = Some L \<longleftrightarrow>
     r < length M \<and> c < length (M ! r) \<and> M ! r ! c = x \<and> L = M[r := take c (M ! r) @ drop (Suc c) (M ! r)]"
  by auto

lemma redo_at_SPLIT_Some:
  "redo_at SPLIT r c x M = Some L \<longleftrightarrow> r < length M \<and> c \<le> length (M ! r) \<and> L = split_line r c M"
  by auto

lemma redo_at_JOIN_Some:
  "redo_at JOIN r c x M = Some L \<longleftrightarrow> Suc r < length M \<and> c = length (M ! r) \<and> L = join_lines r M"
  by auto

lemmas redo_at_Some = redo_at_INSERT_Some redo_at_DELETE_Some redo_at_SPLIT_Some redo_at_JOIN_Some

section \<open>Every edit is logged as what it did\<close>

text \<open>The collection \<open>explains_inv\<close>: an operation applied to a state whose
  cursor is inside the buffer keeps the log explaining the buffer.\<close>

named_theorems explains_inv "operations that keep the log explaining the buffer"

lemma explains_move [explains_inv]: "explains L0 e \<Longrightarrow> explains L0 (move d e)"
  by (cases d) (simp_all add: explains_def Let_def)

lemma explains_insert_one [explains_inv]:
  "cursor_ok e \<Longrightarrow> explains L0 e \<Longrightarrow> explains L0 (insert_one x e)"
  by (simp add: explains_def cursor_ok_def insert_one_def submit_def Let_def redo_def)

lemma explains_insert_one_pow:
  "cursor_ok e \<Longrightarrow> explains L0 e \<Longrightarrow> explains L0 ((insert_one x ^^ n) e) \<and> cursor_ok ((insert_one x ^^ n) e)"
  by (induction n) (simp_all add: explains_insert_one cursor_ok_insert_one)

lemma explains_insert_ed [explains_inv]:
  "cursor_ok e \<Longrightarrow> explains L0 e \<Longrightarrow> explains L0 (insert_ed x e)"
  by (simp add: insert_ed_def explains_insert_one_pow explains_insert_one)

lemma explains_del [explains_inv]:
  "cursor_ok e \<Longrightarrow> explains L0 e \<Longrightarrow> explains L0 (del e)"
  by (auto simp: explains_def cursor_ok_def del_def submit_def Let_def)

lemma explains_backspace [explains_inv]:
  "cursor_ok e \<Longrightarrow> explains L0 e \<Longrightarrow> explains L0 (backspace e)"
proof -
  assume c: "cursor_ok e" and x: "explains L0 e"
  consider (join) "m_c e = 0" "m_r e \<noteq> 0" | (chr) "m_c e \<noteq> 0" | (none) "m_c e = 0" "m_r e = 0"
    by blast
  then show ?thesis
  proof cases
    case join
    with c x show ?thesis
      by (simp add: explains_def cursor_ok_def backspace_def submit_def Let_def redo_def)
  next
    case chr
    with c x show ?thesis
      by (auto simp: explains_def cursor_ok_def backspace_def submit_def Let_def redo_def)
  next
    case none
    with x show ?thesis by (simp add: backspace_def)
  qed
qed

lemma explains_enter [explains_inv]:
  "cursor_ok e \<Longrightarrow> explains L0 e \<Longrightarrow> explains L0 (enter e)"
  by (simp add: explains_def cursor_ok_def enter_def submit_def)

lemma explains_reset [explains_inv]: "explains [[]] (reset e)"
  by (simp add: explains_def reset_def clear_def)

section \<open>The batching loops read the log correctly\<close>

text \<open>
  A run of deletions popped by \<open>batch_delete\<close>. Before the record \<open>cur\<close> was
  made, row \<open>r\<close> was \<open>a @ chs @ z\<close>, where \<open>a\<close> ends where the run's text
  starts, \<open>chs\<close> holds the characters of the records popped so far in their order
  on the line, and \<open>i\<close> is the place of \<open>cur\<close>'s character in \<open>chs\<close>. Each
  record below that continues the run deleted a character adjacent to that block:
  at \<open>cur\<close>'s column (it was in front of \<open>cur\<close>'s character, a forward delete)
  or one column to the right (it was behind it, a backspace). So the text the loop
  returns is the block of row \<open>r\<close> that the whole run removed, in order, and the
  log left behind explains the buffer with that block still in place.
\<close>

lemma batch_delete_replay:
  assumes "batch_delete cur chs i ts = (T, rest)"
    and "replay L0 ts = Some M" "action cur = DELETE" "row cur = int r" "r < length M"
    and "M ! r = a @ chs @ z" "col cur = int (length a + i)" "i < length chs"
  shows "\<exists>M'. replay L0 rest = Some M' \<and> r < length M' \<and> M' ! r = a @ T @ z \<and>
           M'[r := a @ z] = M[r := a @ z]"
  using assms
proof (induction cur chs i ts arbitrary: M rule: batch_delete.induct)
  case (1 cur chs i)
  then show ?case by auto
next
  case (2 cur chs i t ts)
  show ?case
  proof (cases "action t = action cur \<and> row cur = row t \<and> (col cur = col t \<or> col cur = col t - 1)")
    case False
    then have "T = chs" "rest = t # ts" using "2.prems"(1) by (auto split: if_splits)
    then show ?thesis using "2.prems" by auto
  next
    case True
    from "2.prems"(2) [unfolded replay_Cons_Some] obtain M''
      where M'': "replay L0 ts = Some M''" and rd: "redo t M'' = Some M"
      by blast
    from rd obtain r' p where rt: "row t = int r'" "col t = int p"
      and ra: "redo_at (action t) r' p (ch t) M'' = Some M"
      by (rule redo_Some)
    have "r' = r" using True rt "2.prems"(4) by simp
    with ra True "2.prems"(3) have del: "r < length M''" "p < length (M'' ! r)" "M'' ! r ! p = ch t"
      "M = M''[r := take p (M'' ! r) @ drop (Suc p) (M'' ! r)]"
      by (auto split: if_splits)
    then have seg: "take p (M'' ! r) @ drop (Suc p) (M'' ! r) = a @ chs @ z"
      using "2.prems"(6) by simp
    have upd: "M''[r := a @ z] = M[r := a @ z]" using del(4) by simp
    from True rt "2.prems"(7) consider (fwd) "col cur = col t" "p = length a + i"
      | (bsp) "col cur \<noteq> col t" "p = length a + Suc i"
      by linarith
    then show ?thesis
    proof cases
      case fwd
      then have "M'' ! r = a @ list_insert i (ch t) chs @ z"
        using deleted_char_in_segment [OF seg] del(2,3) "2.prems"(8) by simp
      moreover have "batch_delete t (list_insert i (ch t) chs) i ts = (T, rest)"
        using "2.prems"(1) True fwd(1) by simp
      ultimately show ?thesis
        using "2.IH"(1) [OF True[THEN conjunct1] True[THEN conjunct2] fwd(1)] M'' del(1) upd True
          rt fwd "2.prems"(3,8) \<open>r' = r\<close> by (auto simp: line_simps)
    next
      case bsp
      then have "M'' ! r = a @ list_insert (Suc i) (ch t) chs @ z"
        using deleted_char_in_segment [OF seg] del(2,3) "2.prems"(8) by simp
      moreover have "batch_delete t (list_insert (Suc i) (ch t) chs) (Suc i) ts = (T, rest)"
        using "2.prems"(1) True bsp(1) by simp
      ultimately show ?thesis
        using "2.IH"(2) [OF True[THEN conjunct1] True[THEN conjunct2] bsp(1)] M'' del(1) upd True
          rt bsp "2.prems"(3,8) \<open>r' = r\<close> by (auto simp: line_simps)
    qed
  qed
qed

text \<open>
  A run of typed characters popped by \<open>batch_insert\<close>. Before \<open>cur\<close> was made,
  row \<open>r\<close> was \<open>a @ z\<close> with the insertion point at the end of \<open>a\<close>, and the
  buffer at the top of the log is that one with \<open>w\<close>, the characters of the
  records popped so far, between \<open>a\<close> and \<open>z\<close>. A record below that continues
  the run typed the last character of \<open>a\<close>; so the loop ends with a count equal
  to the length of the typed block and a record whose column is one past the
  block's start.
\<close>

lemma batch_insert_replay:
  assumes "batch_insert cur n ts = (cur', n', rest)"
    and "replay L0 ts = Some M" "action cur = INSERT" "row cur = int r" "r < length M"
    and "M ! r = a @ z" "col cur = int (length a) + 1"
    and "Lf = M[r := a @ w @ z]" "n = int (length w)"
  shows "\<exists>M' a' w'. replay L0 rest = Some M' \<and> r < length M' \<and> M' ! r = a' @ z \<and>
           col cur' = int (length a') + 1 \<and> Lf = M'[r := a' @ w' @ z] \<and> n' = int (length w')"
  using assms
proof (induction cur n ts arbitrary: M a w rule: batch_insert.induct)
  case (1 cur n)
  then show ?case by auto
next
  case (2 cur n t ts)
  show ?case
  proof (cases "action t = action cur \<and> row cur = row t \<and> col cur = col t + 1")
    case False
    then have "cur' = cur" "n' = n" "rest = t # ts" using "2.prems"(1) by (auto split: if_splits)
    then show ?thesis using "2.prems" by blast
  next
    case True
    from "2.prems"(2) [unfolded replay_Cons_Some] obtain M''
      where M'': "replay L0 ts = Some M''" and rd: "redo t M'' = Some M"
      by blast
    from rd obtain r' q where rt: "row t = int r'" "col t = int q"
      and ra: "redo_at (action t) r' q (ch t) M'' = Some M"
      by (rule redo_Some)
    have "r' = r" using True rt "2.prems"(4) by simp
    with ra True "2.prems"(3) have ins: "r < length M''" "1 \<le> q" "q - 1 \<le> length (M'' ! r)"
      "M = M''[r := take (q - 1) (M'' ! r) @ ch t # drop (q - 1) (M'' ! r)]"
      by (auto split: if_splits)
    have q: "q = length a" using True rt "2.prems"(7) by simp
    let ?a' = "take (q - 1) (M'' ! r)"
    let ?w' = "ch t # w"
    have "(?a' @ [ch t]) @ drop (q - 1) (M'' ! r) = a @ z"
      using ins "2.prems"(6) by simp
    moreover have "length (?a' @ [ch t]) = length a" using ins(2,3) q by simp
    ultimately have az: "a = ?a' @ [ch t]" "z = drop (q - 1) (M'' ! r)"
      by (metis append_eq_append_conv)+
    have m: "M'' ! r = ?a' @ z" using az(2) by simp
    have c: "col t = int (length ?a') + 1" using rt(2) ins(2,3) by simp
    have lf: "Lf = M''[r := ?a' @ ?w' @ z]" using "2.prems"(8) ins(4) az(1) by simp
    have nw: "n + 1 = int (length ?w')" using "2.prems"(9) by simp
    have bi: "batch_insert t (n + 1) ts = (cur', n', rest)"
      using "2.prems"(1) True by simp
    have at: "action t = INSERT" "row t = int r" using True "2.prems"(3) rt(1) \<open>r' = r\<close> by simp_all
    show ?thesis
      by (rule "2.IH" [OF True[THEN conjunct1] True[THEN conjunct2] bi M'' at ins(1) m c lf nw])
  qed
qed

section \<open>Undo goes back to an earlier version of the buffer\<close>

text \<open>One lemma per kind of record at the top of an explaining log: \<open>undo\<close>
  succeeds, pops the record (and, for character edits, the rest of its run),
  and leaves the buffer that the remaining log explains, with the cursor where
  the inverse action puts it.\<close>

abbreviation get_init :: "editor \<Rightarrow> get_out" where
  "get_init e \<equiv> \<lparr>out_row = 0, out_col = int (m_c e), out_count = 0, out_text = []\<rparr>"

lemma undo_SPLIT_record:
  assumes stk: "m_undo e = cur # rest"
    and rc: "row cur = int r" "col cur = int c" "action cur = SPLIT"
    and rd: "redo_at SPLIT r c (ch cur) M = Some (m_lines e)"
  shows "\<exists>e'. undo e = Some e' \<and> m_undo e' = rest \<and> m_lines e' = M \<and> m_r e' = r \<and> m_c e' = c"
proof -
  obtain a out stk' where g: "get (get_init e) (m_undo e) = (a, out, stk')"
    by (cases "get (get_init e) (m_undo e)") auto
  from get_SPLIT [OF g [unfolded stk] rc(3)] rc
  have o: "a = JOIN" "out_row out = int r" "stk' = rest" "out_col out = int c" by simp_all
  from rd have L: "r < length M" "c \<le> length (M ! r)" "m_lines e = split_line r c M"
    by (auto split: if_splits)
  then have "out_col out = int (length (m_lines (e\<lparr>m_undo := rest\<rparr>) ! r))"
    "Suc r < length (m_lines (e\<lparr>m_undo := rest\<rparr>))"
    using o by (simp_all add: line_simps)
  from undo_apply_JOIN [OF o(2) this] L
  have "undo_apply JOIN out (e\<lparr>m_undo := rest\<rparr>) =
      Some (e\<lparr>m_undo := rest, m_r := r, m_c := c, m_lines := M\<rparr>)"
    by (simp add: line_simps)
  with undo_get [OF g] o show ?thesis by simp
qed

lemma undo_JOIN_record:
  assumes stk: "m_undo e = cur # rest"
    and rc: "row cur = int r" "col cur = int c" "action cur = JOIN"
    and rd: "redo_at JOIN r c (ch cur) M = Some (m_lines e)"
  shows "\<exists>e'. undo e = Some e' \<and> m_undo e' = rest \<and> m_lines e' = M \<and> m_r e' = Suc r \<and> m_c e' = 0"
proof -
  obtain a out stk' where g: "get (get_init e) (m_undo e) = (a, out, stk')"
    by (cases "get (get_init e) (m_undo e)") auto
  from get_JOIN [OF g [unfolded stk] rc(3)] rc
  have o: "a = SPLIT" "out_row out = int r" "stk' = rest" "out_col out = int c" by simp_all
  from rd have L: "Suc r < length M" "c = length (M ! r)" "m_lines e = join_lines r M"
    by (auto split: if_splits)
  then have "r < length (m_lines (e\<lparr>m_undo := rest\<rparr>))" "c \<le> length (m_lines (e\<lparr>m_undo := rest\<rparr>) ! r)"
    by (simp_all add: line_simps)
  from undo_apply_SPLIT [OF o(2,4) this] L
  have "undo_apply SPLIT out (e\<lparr>m_undo := rest\<rparr>) =
      Some (e\<lparr>m_undo := rest, m_r := Suc r, m_c := 0, m_lines := M\<rparr>)"
    by (simp add: line_simps)
  with undo_get [OF g] o show ?thesis by simp
qed

lemma undo_DELETE_record:
  assumes stk: "m_undo e = cur # rest" and M: "replay L0 rest = Some M"
    and rc: "row cur = int r" "col cur = int c" "action cur = DELETE"
    and rd: "redo_at DELETE r c (ch cur) M = Some (m_lines e)"
  shows "\<exists>e' k. undo e = Some e' \<and> m_undo e' = drop k rest \<and> replay L0 (m_undo e') = Some (m_lines e') \<and>
           m_r e' = r \<and> m_c e' = c \<and> c \<le> length (m_lines e' ! r) \<and> r < length (m_lines e')"
proof -
  obtain a out stk' where g: "get (get_init e) (m_undo e) = (a, out, stk')"
    by (cases "get (get_init e) (m_undo e)") auto
  from get_DELETE [OF g [unfolded stk] rc(3)] rc
  have o: "a = INSERT" "out_row out = int r" "out_col out = int c"
    and b: "batch_delete cur [ch cur] 0 rest = (out_text out, stk')" by simp_all
  from rd have L: "r < length M" "c < length (M ! r)" "M ! r ! c = ch cur"
    "m_lines e = M[r := take c (M ! r) @ drop (Suc c) (M ! r)]"
    by (auto split: if_splits)
  let ?a = "take c (M ! r)" and ?z = "drop (Suc c) (M ! r)"
  have m: "M ! r = ?a @ [ch cur] @ ?z" using L(2,3) id_take_nth_drop [OF L(2)] by simp
  have cc: "col cur = int (length ?a + 0)" using rc(2) L(2) by simp
  have i0: "0 < length [ch cur]" by simp
  obtain M' where M': "replay L0 stk' = Some M'" "r < length M'"
      "M' ! r = ?a @ out_text out @ ?z" "M'[r := ?a @ ?z] = M[r := ?a @ ?z]"
    using batch_delete_replay [OF b M rc(3,1) L(1) m cc i0] by blast
  have le: "length ?a = c" using L(2) by simp
  have lines: "m_lines e = M'[r := ?a @ ?z]" using L(4) M'(4) by simp
  then have "r < length (m_lines (e\<lparr>m_undo := stk'\<rparr>))" "c \<le> length (m_lines (e\<lparr>m_undo := stk'\<rparr>) ! r)"
    using M'(2) le by simp_all
  from undo_apply_INSERT [OF o(2,3) this]
  have "undo_apply INSERT out (e\<lparr>m_undo := stk'\<rparr>) =
      Some (e\<lparr>m_undo := stk', m_r := r, m_c := c, m_lines := M'\<rparr>)"
    using lines M'(2) le list_update_id [of M' r, unfolded M'(3)] by simp
  moreover obtain k where "stk' = drop k rest"
    using batch_delete_pops [OF b] by blast
  ultimately show ?thesis
    using undo_get [OF g] o M' le by auto
qed

lemma undo_INSERT_record:
  assumes stk: "m_undo e = cur # rest" and M: "replay L0 rest = Some M"
    and rc: "row cur = int r" "col cur = int c" "action cur = INSERT"
    and rd: "redo_at INSERT r c (ch cur) M = Some (m_lines e)"
  shows "\<exists>e' k. undo e = Some e' \<and> m_undo e' = drop k rest \<and> replay L0 (m_undo e') = Some (m_lines e') \<and>
           m_r e' = r \<and> m_c e' \<le> length (m_lines e' ! r) \<and> r < length (m_lines e')"
proof -
  obtain a out stk' where g: "get (get_init e) (m_undo e) = (a, out, stk')"
    by (cases "get (get_init e) (m_undo e)") auto
  from get_INSERT [OF g [unfolded stk] rc(3)] rc
  obtain cur' where o: "a = DELETE" "out_row out = int r" "out_col out = col cur' - 1"
    and b: "batch_insert cur 1 rest = (cur', out_count out, stk')" by auto
  from rd have L: "r < length M" "1 \<le> c" "c - 1 \<le> length (M ! r)"
    "m_lines e = M[r := take (c - 1) (M ! r) @ ch cur # drop (c - 1) (M ! r)]"
    by (auto split: if_splits)
  let ?a = "take (c - 1) (M ! r)" and ?z = "drop (c - 1) (M ! r)"
  have m: "M ! r = ?a @ ?z" by simp
  have cc: "col cur = int (length ?a) + 1" using rc(2) L(2,3) by simp
  have lf: "m_lines e = M[r := ?a @ [ch cur] @ ?z]" using L(4) by simp
  have n1: "1 = int (length [ch cur])" by simp
  obtain M' a' w' where M': "replay L0 stk' = Some M'" "r < length M'" "M' ! r = a' @ ?z"
      "col cur' = int (length a') + 1" "m_lines e = M'[r := a' @ w' @ ?z]" "out_count out = int (length w')"
    using batch_insert_replay [OF b M rc(3,1) L(1) m cc lf n1] by blast
  have oc: "out_col out = int (length a')" using o(3) M'(4) by simp
  have "r < length (m_lines (e\<lparr>m_undo := stk'\<rparr>))" "length a' \<le> length (m_lines (e\<lparr>m_undo := stk'\<rparr>) ! r)"
    using M'(2,5) by simp_all
  from undo_apply_DELETE [OF o(2) oc M'(6) this]
  have "undo_apply DELETE out (e\<lparr>m_undo := stk'\<rparr>) =
      Some (e\<lparr>m_undo := stk', m_r := r, m_c := length a', m_lines := M'\<rparr>)"
    using M'(2,5) list_update_id [of M' r, unfolded M'(3)] by simp
  moreover obtain k where "stk' = drop k rest"
    using batch_insert_pops [OF b] by blast
  ultimately show ?thesis
    using undo_get [OF g] o M' by auto
qed

text \<open>The four cases together: on a log that explains the buffer, \<open>undo\<close> never
  fails, pops at least one record, and leaves a log that explains the new buffer
  and a cursor inside it.\<close>

lemma undo_explained:
  assumes x: "explains L0 e" and ne: "m_undo e \<noteq> []"
  shows "\<exists>e' k. undo e = Some e' \<and> 0 < k \<and> m_undo e' = drop k (m_undo e) \<and>
           explains L0 e' \<and> cursor_ok e'"
proof -
  obtain cur rest where stk: "m_undo e = cur # rest" using ne by (cases "m_undo e") auto
  from x [unfolded explains_def stk replay_Cons_Some] obtain M
    where M: "replay L0 rest = Some M" and rd: "redo cur M = Some (m_lines e)"
    by blast
  from rd obtain r c where rc: "row cur = int r" "col cur = int c"
    and ra: "redo_at (action cur) r c (ch cur) M = Some (m_lines e)"
    by (rule redo_Some)
  show ?thesis
  proof (cases "action cur")
    case ERROR
    with ra show ?thesis by simp
  next
    case INSERT
    from undo_INSERT_record [OF stk M rc INSERT] ra INSERT obtain e' k where
      "undo e = Some e'" "m_undo e' = drop k rest" "replay L0 (m_undo e') = Some (m_lines e')"
      "m_r e' = r" "m_c e' \<le> length (m_lines e' ! r)" "r < length (m_lines e')"
      by auto
    with stk show ?thesis
      by (intro exI [of _ e'] exI [of _ "Suc k"]) (simp add: explains_def cursor_ok_def)
  next
    case DELETE
    from undo_DELETE_record [OF stk M rc DELETE] ra DELETE obtain e' k where
      "undo e = Some e'" "m_undo e' = drop k rest" "replay L0 (m_undo e') = Some (m_lines e')"
      "m_r e' = r" "m_c e' = c" "c \<le> length (m_lines e' ! r)" "r < length (m_lines e')"
      by auto
    with stk show ?thesis
      by (intro exI [of _ e'] exI [of _ "Suc k"]) (simp add: explains_def cursor_ok_def)
  next
    case SPLIT
    from undo_SPLIT_record [OF stk rc SPLIT] ra SPLIT obtain e' where
      "undo e = Some e'" "m_undo e' = rest" "m_lines e' = M" "m_r e' = r" "m_c e' = c"
      by auto
    moreover have "r < length M" "c \<le> length (M ! r)" using ra SPLIT by (auto split: if_splits)
    ultimately show ?thesis using stk M
      by (intro exI [of _ e'] exI [of _ "Suc 0"]) (simp add: explains_def cursor_ok_def)
  next
    case JOIN
    from undo_JOIN_record [OF stk rc JOIN] ra JOIN obtain e' where
      "undo e = Some e'" "m_undo e' = rest" "m_lines e' = M" "m_r e' = Suc r" "m_c e' = 0"
      by auto
    moreover have "Suc r < length M" using ra JOIN by (auto split: if_splits)
    ultimately show ?thesis using stk M
      by (intro exI [of _ e'] exI [of _ "Suc 0"]) (simp add: explains_def cursor_ok_def)
  qed
qed

end
