(* ===== verification/Undo_Runs.thy ===== *)
theory Undo_Runs
  imports History
begin

text \<open>
  What one \<open>undo\<close> does after one run of edits, computed exactly: after a string
  is typed, one undo removes it and puts the cursor back; after a run of forward
  deletes it reinserts the text with the cursor where it was; after a run of
  backspaces it reinserts the text but leaves the cursor at the start of it; a
  split or a join is undone on its own. The run must start on a log whose top
  record does not continue it (\<open>typing_joins\<close>, \<open>deleting_joins\<close>), otherwise
  \<^verbatim>\<open>get\<close> batches the older records too.
\<close>

section \<open>Records of a run\<close>

abbreviation rec :: "action \<Rightarrow> nat \<Rightarrow> nat \<Rightarrow> char \<Rightarrow> actdata" where
  "rec k r c x \<equiv> \<lparr>action = k, row = int r, col = int c, ch = x\<rparr>"

text \<open>The records typing \<open>w\<close> at row \<open>r\<close>, column \<open>c\<close> pushes, top first.\<close>

fun typed_recs :: "nat \<Rightarrow> nat \<Rightarrow> string \<Rightarrow> undo_stack" where
  "typed_recs r c [] = []"
| "typed_recs r c (x # w) = typed_recs r (Suc c) w @ [rec INSERT r (Suc c) x]"

text \<open>Whether the top record of a log continues a run of typing that starts at
  row \<open>r\<close>, column \<open>c\<close> (the test of \<open>batch_insert\<close>).\<close>

definition typing_joins :: "nat \<Rightarrow> nat \<Rightarrow> undo_stack \<Rightarrow> bool" where
  "typing_joins r c stk =
     (case stk of [] \<Rightarrow> False | t # _ \<Rightarrow> action t = INSERT \<and> row t = int r \<and> col t = int c)"

text \<open>The characters of a typed string after tab expansion.\<close>

definition tab_expand :: "char \<Rightarrow> string" where
  "tab_expand x = (if x = CHR 0x09 then ''    '' else [x])"

text \<open>The records of a run of backspaces that ended at column \<open>j\<close>, top first:
  consecutive columns from \<open>j\<close> on, one deleted character each.\<close>

fun bs_recs :: "nat \<Rightarrow> nat \<Rightarrow> string \<Rightarrow> undo_stack" where
  "bs_recs r j [] = []"
| "bs_recs r j (x # xs) = rec DELETE r j x # bs_recs r (Suc j) xs"

text \<open>Whether the top record of a log continues a run of deletions whose earliest
  record has column \<open>c\<close> (the test of \<open>batch_delete\<close>).\<close>

definition deleting_joins :: "nat \<Rightarrow> nat \<Rightarrow> undo_stack \<Rightarrow> bool" where
  "deleting_joins r c stk =
     (case stk of [] \<Rightarrow> False
      | t # _ \<Rightarrow> action t = DELETE \<and> row t = int r \<and> (int c = col t \<or> int c = col t - 1))"

section \<open>Typing\<close>

lemma insert_ed_fold: "insert_ed x e = fold insert_one (tab_expand x) e"
  by (simp add: insert_ed_def tab_expand_def numeral_eq_Suc)

lemma fold_insert_ed: "fold insert_ed w e = fold insert_one (concat (map tab_expand w)) e"
  by (induction w arbitrary: e) (simp_all add: insert_ed_fold)

lemma fold_insert_one:
  assumes "cursor_ok e"
  shows "m_lines (fold insert_one w e) =
           (m_lines e)[m_r e := take (m_c e) (cur_line e) @ w @ drop (m_c e) (cur_line e)] \<and>
         m_r (fold insert_one w e) = m_r e \<and>
         m_c (fold insert_one w e) = m_c e + length w \<and>
         m_undo (fold insert_one w e) = typed_recs (m_r e) (m_c e) w @ m_undo e"
  using assms
proof (induction w arbitrary: e)
  case Nil
  then show ?case by (simp add: cursor_ok_def)
next
  case (Cons x w)
  have c: "cursor_ok (insert_one x e)" using Cons.prems by (rule cursor_ok_insert_one)
  have r: "m_r e < length (m_lines e)" "m_c e \<le> length (cur_line e)"
    using Cons.prems by (simp_all add: cursor_ok_def)
  show ?case
    using Cons.IH [OF c] r by (simp add: insert_one_def submit_def Let_def)
qed

lemma typed_recs_snoc:
  "typed_recs r c (w @ [x]) = rec INSERT r (c + Suc (length w)) x # typed_recs r c w"
  by (induction w arbitrary: c) simp_all

lemma batch_insert_typed:
  assumes "\<not> typing_joins r c stk"
  shows "batch_insert (rec INSERT r (c + Suc (length w)) x) m (typed_recs r c w @ stk) =
           (rec INSERT r (Suc c) (hd (w @ [x])), m + int (length w), stk)"
  using assms
proof (induction w arbitrary: x m rule: rev_induct)
  case Nil
  then show ?case by (cases stk) (auto simp: typing_joins_def)
next
  case (snoc y w)
  have "batch_insert (rec INSERT r (c + Suc (length (w @ [y]))) x) m (typed_recs r c (w @ [y]) @ stk) =
        batch_insert (rec INSERT r (c + Suc (length w)) y) (m + 1) (typed_recs r c w @ stk)"
    by (simp add: typed_recs_snoc)
  also have "\<dots> = (rec INSERT r (Suc c) (hd (w @ [y])), m + 1 + int (length w), stk)"
    using snoc by blast
  finally show ?case by (cases w) simp_all
qed

text \<open>One undo after typing a non-empty string removes all of it and restores
  the state exactly.\<close>

lemma undo_typed:
  assumes "cursor_ok e" "w \<noteq> []" "\<not> typing_joins (m_r e) (m_c e) (m_undo e)"
  shows "undo (fold insert_one w e) = Some e"
proof -
  let ?e = "fold insert_one w e" and ?r = "m_r e" and ?c = "m_c e"
  obtain w' x where w: "w = w' @ [x]" using assms(2) by (cases w rule: rev_cases) auto
  note f = fold_insert_one [OF assms(1), of w]
  have r: "?r < length (m_lines e)" "?c \<le> length (cur_line e)"
    using assms(1) by (simp_all add: cursor_ok_def)
  have stk: "m_undo ?e = rec INSERT ?r (?c + Suc (length w')) x # (typed_recs ?r ?c w' @ m_undo e)"
    using f w by (simp add: typed_recs_snoc)
  have b: "batch_insert (rec INSERT ?r (?c + Suc (length w')) x) 1 (typed_recs ?r ?c w' @ m_undo e) =
      (rec INSERT ?r (Suc ?c) (hd (w' @ [x])), 1 + int (length w'), m_undo e)"
    by (rule batch_insert_typed [OF assms(3)])
  obtain a out stk' where g: "get (get_init ?e) (m_undo ?e) = (a, out, stk')"
    by (cases "get (get_init ?e) (m_undo ?e)") auto
  from get_INSERT [OF g [unfolded stk]] b
  have o: "a = DELETE" "out_row out = int ?r" "out_col out = int ?c"
    "out_count out = int (length w)" "stk' = m_undo e"
    using w by auto
  have "undo_apply DELETE out (?e\<lparr>m_undo := stk'\<rparr>) = Some e"
    using undo_apply_DELETE [OF o(2,3,4), of "?e\<lparr>m_undo := stk'\<rparr>"] f r o(5)
    by (simp add: editor.equality)
  then show ?thesis using undo_get [OF g] o(1) by simp
qed

section \<open>Splitting and joining\<close>

text \<open>Structural records are never batched, so one undo after \<open>enter\<close> or after
  a join reverts exactly that edit, whatever the log held before.\<close>

lemma undo_enter:
  assumes "cursor_ok e"
  shows "undo (enter e) = Some e"
proof -
  have stk: "m_undo (enter e) = rec SPLIT (m_r e) (m_c e) (CHR 0x00) # m_undo e"
    by (simp add: enter_def submit_def)
  have rd: "redo_at SPLIT (m_r e) (m_c e) (ch (rec SPLIT (m_r e) (m_c e) (CHR 0x00))) (m_lines e) =
      Some (m_lines (enter e))"
    using assms by (simp add: enter_def cursor_ok_def)
  from undo_SPLIT_record [OF stk _ _ _ rd]
  have "\<exists>e'. undo (enter e) = Some e' \<and> m_undo e' = m_undo e \<and> m_lines e' = m_lines e \<and>
      m_r e' = m_r e \<and> m_c e' = m_c e"
    by simp
  then obtain e' where
    "undo (enter e) = Some e'" "m_undo e' = m_undo e" "m_lines e' = m_lines e"
    "m_r e' = m_r e" "m_c e' = m_c e"
    by blast
  then show ?thesis by (simp add: editor.equality)
qed

lemma undo_backspace_join:
  assumes "cursor_ok e" "m_c e = 0" "m_r e \<noteq> 0"
  shows "undo (backspace e) = Some e"
proof -
  let ?r = "m_r e - 1"
  have stk: "m_undo (backspace e) = rec JOIN ?r (length (m_lines e ! ?r)) (CHR 0x00) # m_undo e"
    using assms(2,3) by (simp add: backspace_def submit_def Let_def)
  have rd: "redo_at JOIN ?r (length (m_lines e ! ?r)) (ch (rec JOIN ?r (length (m_lines e ! ?r)) (CHR 0x00)))
      (m_lines e) = Some (m_lines (backspace e))"
    using assms by (simp add: backspace_def cursor_ok_def Let_def)
  from undo_JOIN_record [OF stk _ _ _ rd]
  have "\<exists>e'. undo (backspace e) = Some e' \<and> m_undo e' = m_undo e \<and> m_lines e' = m_lines e \<and>
      m_r e' = Suc ?r \<and> m_c e' = 0"
    by simp
  then obtain e' where
    "undo (backspace e) = Some e'" "m_undo e' = m_undo e" "m_lines e' = m_lines e"
    "m_r e' = Suc ?r" "m_c e' = 0"
    by blast
  then show ?thesis using assms(2,3) by (simp add: editor.equality)
qed

text \<open>A join made by \<open>del\<close> at the end of a line is undone by a split that
  leaves the cursor at the start of the next line, not where \<open>del\<close> was
  called.\<close>

lemma undo_del_join:
  assumes "cursor_ok e" "m_c e = length (cur_line e)" "Suc (m_r e) < length (m_lines e)"
  shows "undo (del e) = Some (e\<lparr>m_r := Suc (m_r e), m_c := 0\<rparr>)"
proof -
  have stk: "m_undo (del e) = rec JOIN (m_r e) (m_c e) (CHR 0x00) # m_undo e"
    using assms(2,3) by (simp add: del_def submit_def Let_def)
  have last: "m_r e \<noteq> length (m_lines e) - 1" using assms(3) by simp
  have rd: "redo_at JOIN (m_r e) (m_c e) (ch (rec JOIN (m_r e) (m_c e) (CHR 0x00))) (m_lines e) =
      Some (m_lines (del e))"
    using assms(2,3) last by (simp add: del_def Let_def)
  from undo_JOIN_record [OF stk _ _ _ rd]
  have "\<exists>e'. undo (del e) = Some e' \<and> m_undo e' = m_undo e \<and> m_lines e' = m_lines e \<and>
      m_r e' = Suc (m_r e) \<and> m_c e' = 0"
    by simp
  then obtain e' where
    "undo (del e) = Some e'" "m_undo e' = m_undo e" "m_lines e' = m_lines e"
    "m_r e' = Suc (m_r e)" "m_c e' = 0"
    by blast
  then show ?thesis by (simp add: editor.equality)
qed

section \<open>Runs of deletions\<close>

lemma del_pow:
  assumes "cursor_ok e" "n \<le> length (cur_line e) - m_c e"
  shows "m_lines ((del ^^ n) e) = (m_lines e)[m_r e := take (m_c e) (cur_line e) @ drop (m_c e + n) (cur_line e)] \<and>
         m_r ((del ^^ n) e) = m_r e \<and> m_c ((del ^^ n) e) = m_c e \<and>
         m_undo ((del ^^ n) e) = rev (map (rec DELETE (m_r e) (m_c e)) (take n (drop (m_c e) (cur_line e)))) @ m_undo e"
  using assms(2)
proof (induction n)
  case 0
  then show ?case by simp
next
  case (Suc n)
  let ?r = "m_r e" and ?c = "m_c e" and ?ln = "cur_line e"
  have r: "?r < length (m_lines e)" "?c + Suc n \<le> length ?ln"
    using assms(1) Suc.prems by (auto simp: cursor_ok_def)
  let ?l = "take ?c ?ln @ drop (?c + n) ?ln"
  have l: "?c < length ?l" "?l ! ?c = ?ln ! (?c + n)"
    "take ?c ?l @ drop (Suc ?c) ?l = take ?c ?ln @ drop (?c + Suc n) ?ln"
    using r(2) by (simp_all add: nth_append min_def)
  have tk: "take (Suc n) (drop ?c ?ln) = take n (drop ?c ?ln) @ [?ln ! (?c + n)]"
    using r(2) by (simp add: take_Suc_conv_app_nth)
  show ?case
    using Suc.IH Suc.prems r l tk by (simp add: del_def submit_def Let_def)
qed

lemma batch_delete_forward:
  assumes "\<not> deleting_joins r c stk"
  shows "batch_delete (rec DELETE r c x) chs 0 (rev (map (rec DELETE r c) xs) @ stk) = (xs @ chs, stk)"
  using assms
proof (induction xs arbitrary: x chs rule: rev_induct)
  case Nil
  then show ?case by (cases stk) (auto simp: deleting_joins_def)
next
  case (snoc y xs)
  then show ?case by (simp add: list_insert_def)
qed

lemma backspace_pow:
  assumes "cursor_ok e" "n \<le> m_c e"
  shows "m_lines ((backspace ^^ n) e) =
           (m_lines e)[m_r e := take (m_c e - n) (cur_line e) @ drop (m_c e) (cur_line e)] \<and>
         m_r ((backspace ^^ n) e) = m_r e \<and> m_c ((backspace ^^ n) e) = m_c e - n \<and>
         m_undo ((backspace ^^ n) e) = bs_recs (m_r e) (m_c e - n) (take n (drop (m_c e - n) (cur_line e))) @ m_undo e"
  using assms(2)
proof (induction n)
  case 0
  then show ?case by simp
next
  case (Suc n)
  let ?r = "m_r e" and ?c = "m_c e" and ?ln = "cur_line e"
  have r: "?r < length (m_lines e)" "?c \<le> length ?ln" "Suc n \<le> ?c"
    using assms(1) Suc.prems by (auto simp: cursor_ok_def)
  let ?k = "?c - Suc n"
  let ?l = "take (?c - n) ?ln @ drop ?c ?ln"
  have kl: "?k < length (take (?c - n) ?ln)" using r by simp
  have l: "?l ! ?k = ?ln ! ?k"
    using kl by (simp add: nth_append)
  have l2: "take ?k ?l @ drop (?c - n) ?l = take ?k ?ln @ drop ?c ?ln"
    using r by (simp add: min_def)
  have tk: "take (Suc n) (drop ?k ?ln) = ?ln ! ?k # take n (drop (?c - n) ?ln)"
    using r by (simp add: take_Suc_conv_app_nth Cons_nth_drop_Suc [symmetric] Suc_diff_Suc)
  have c: "?c - n \<noteq> 0" "?c - n - 1 = ?k" "Suc ?k = ?c - n" using r(3) by simp_all
  define e' where "e' = (backspace ^^ n) e"
  have ih: "m_lines e' = (m_lines e)[?r := ?l]" "m_r e' = ?r" "m_c e' = ?c - n"
    "m_undo e' = bs_recs ?r (?c - n) (take n (drop (?c - n) ?ln)) @ m_undo e"
    using Suc.IH Suc.prems by (simp_all add: e'_def)
  have eq: "(backspace ^^ Suc n) e = backspace e'" by (simp add: e'_def)
  show ?case unfolding eq
    using ih r l l2 tk c by (simp add: backspace_def submit_def Let_def)
qed

lemma batch_delete_backward:
  assumes "\<not> deleting_joins r (j + length xs) stk" "Suc i = length chs"
  shows "batch_delete (rec DELETE r j x) chs i (bs_recs r (Suc j) xs @ stk) = (chs @ xs, stk)"
  using assms
proof (induction xs arbitrary: j x chs i)
  case Nil
  then show ?case by (cases stk) (auto simp: deleting_joins_def)
next
  case (Cons y xs)
  have "list_insert (Suc i) y chs = chs @ [y]" using Cons.prems(2) by (simp add: list_insert_def)
  then show ?case using Cons.IH [where j = "Suc j" and x = y and chs = "chs @ [y]" and i = "Suc i"] Cons.prems by simp
qed

text \<open>One undo after \<open>n\<close> forward deletes reinserts the deleted text and
  restores the state exactly.\<close>

lemma undo_del_run:
  assumes "cursor_ok e" "0 < n" "n \<le> length (cur_line e) - m_c e"
    and "\<not> deleting_joins (m_r e) (m_c e) (m_undo e)"
  shows "undo ((del ^^ n) e) = Some e"
proof -
  let ?e = "(del ^^ n) e" and ?r = "m_r e" and ?c = "m_c e" and ?ln = "cur_line e"
  let ?xs = "take n (drop ?c ?ln)"
  note f = del_pow [OF assms(1,3)]
  have r: "?r < length (m_lines e)" "?c + n \<le> length ?ln"
    using assms(1,3) by (auto simp: cursor_ok_def)
  obtain xs' x where xs: "?xs = xs' @ [x]"
    using assms(2) r(2) by (cases ?xs rule: rev_cases) auto
  have stk: "m_undo ?e = rec DELETE ?r ?c x # (rev (map (rec DELETE ?r ?c) xs') @ m_undo e)"
    using f xs by simp
  obtain a out stk' where g: "get (get_init ?e) (m_undo ?e) = (a, out, stk')"
    by (cases "get (get_init ?e) (m_undo ?e)") auto
  from get_DELETE [OF g [unfolded stk]] batch_delete_forward [OF assms(4), of x "[x]" xs']
  have o: "a = INSERT" "out_row out = int ?r" "out_col out = int ?c" "out_text out = ?xs" "stk' = m_undo e"
    using xs by auto
  have ln: "take ?c ?ln @ ?xs @ drop (?c + n) ?ln = ?ln" by (rule take_take_drop)
  have "undo_apply INSERT out (?e\<lparr>m_undo := stk'\<rparr>) = Some e"
    using undo_apply_INSERT [OF o(2,3), of "?e\<lparr>m_undo := stk'\<rparr>"] f r o(4,5) ln
    by (simp add: editor.equality)
  then show ?thesis using undo_get [OF g] o(1) by simp
qed

text \<open>One undo after \<open>n\<close> backspaces reinserts the deleted text, but the
  cursor stays where the backspaces left it, \<open>n\<close> columns to the left.\<close>

lemma undo_backspace_run:
  assumes "cursor_ok e" "0 < n" "n \<le> m_c e"
    and "\<not> deleting_joins (m_r e) (m_c e - 1) (m_undo e)"
  shows "undo ((backspace ^^ n) e) = Some (e\<lparr>m_c := m_c e - n\<rparr>)"
proof -
  let ?e = "(backspace ^^ n) e" and ?r = "m_r e" and ?c = "m_c e" and ?ln = "cur_line e"
  let ?xs = "take n (drop (?c - n) ?ln)"
  note f = backspace_pow [OF assms(1,3)]
  have r: "?r < length (m_lines e)" "?c \<le> length ?ln"
    using assms(1) by (auto simp: cursor_ok_def)
  obtain x xs' where xs: "?xs = x # xs'"
    using assms(2,3) r(2) by (cases ?xs) auto
  have "length ?xs = n" using assms(3) r(2) by simp
  with xs have lxs: "length xs' = n - 1" by simp
  have stk: "m_undo ?e = rec DELETE ?r (?c - n) x # (bs_recs ?r (Suc (?c - n)) xs' @ m_undo e)"
    using f xs by simp
  have nj: "\<not> deleting_joins ?r (?c - n + length xs') (m_undo e)"
    using assms(2,3,4) lxs by simp
  obtain a out stk' where g: "get (get_init ?e) (m_undo ?e) = (a, out, stk')"
    by (cases "get (get_init ?e) (m_undo ?e)") auto
  from get_DELETE [OF g [unfolded stk]] batch_delete_backward [OF nj, of 0 "[x]" x]
  have o: "a = INSERT" "out_row out = int ?r" "out_col out = int (?c - n)" "out_text out = ?xs"
    "stk' = m_undo e"
    using xs by auto
  have ln: "take (?c - n) ?ln @ ?xs @ drop ?c ?ln = ?ln"
    using take_take_drop [of "?c - n" ?ln n] assms(3) by simp
  have "undo_apply INSERT out (?e\<lparr>m_undo := stk'\<rparr>) = Some (e\<lparr>m_c := ?c - n\<rparr>)"
    using undo_apply_INSERT [OF o(2,3), of "?e\<lparr>m_undo := stk'\<rparr>"] f r o(4,5) ln
    by (simp add: editor.equality)
  then show ?thesis using undo_get [OF g] o(1) by simp
qed

end
