(* ===== verification/Editor_IO.thy ===== *)
theory Editor_IO
  imports Editor
begin

text \<open>
  \<^verbatim>\<open>StudentTextEditor::load\<close> and \<^verbatim>\<open>save\<close>. The file system is modelled at its
  boundary: \<open>files\<close> gives the content of each path, \<open>None\<close> where an
  \<^verbatim>\<open>ifstream\<close> cannot be opened; the success of opening an \<^verbatim>\<open>ofstream\<close> is
  the predicate \<open>writable\<close>. The \<^verbatim>\<open>std::getline\<close> loop is \<open>getlines\<close>:
  a line ends at a newline, and a last line without one is read if it is not
  empty. Nothing else of the streams (encodings, I/O errors in the middle of a
  read or write) is modelled.
\<close>

type_synonym files = "string \<Rightarrow> string option"

abbreviation NL :: char where "NL \<equiv> CHR 0x0A"
abbreviation CR :: char where "CR \<equiv> CHR 0x0D"

text \<open>\<^verbatim>\<open>while (std::getline(infile, str))\<close>: the lines read, \<open>acc\<close> holding the
  characters of the current line in reverse.\<close>

fun getlines :: "string \<Rightarrow> string \<Rightarrow> string list" where
  "getlines acc [] = (if acc = [] then [] else [rev acc])"
| "getlines acc (x # xs) = (if x = NL then rev acc # getlines [] xs else getlines (x # acc) xs)"

text \<open>The body of the loop: a trailing carriage return is removed; the first line
  overwrites the empty line \<^verbatim>\<open>reset()\<close> left at \<^verbatim>\<open>m_it\<close>, the others are
  appended.\<close>

definition strip_cr :: "string \<Rightarrow> string" where
  "strip_cr s = (if s \<noteq> [] \<and> last s = CR then butlast s else s)"

fun load_loop :: "bool \<Rightarrow> nat \<Rightarrow> buffer \<Rightarrow> string list \<Rightarrow> buffer" where
  "load_loop first it L [] = L"
| "load_loop first it L (s # ss) =
     (let str = strip_cr s in
      if first then load_loop False it (L[it := str]) ss
      else load_loop first it (L @ [str]) ss)"

definition load :: "files \<Rightarrow> string \<Rightarrow> editor \<Rightarrow> bool \<times> editor" where
  "load fs file e =
     (case fs file of
        None \<Rightarrow> (False, e)
      | Some content \<Rightarrow>
          (let e0 = reset e
           in (True, e0\<lparr>m_lines := load_loop True (m_r e0) (m_lines e0) (getlines [] content)\<rparr>)))"

text \<open>\<^verbatim>\<open>save\<close>: every line followed by a newline, into a truncated file.\<close>

definition save :: "(string \<Rightarrow> bool) \<Rightarrow> string \<Rightarrow> editor \<Rightarrow> files \<Rightarrow> bool \<times> files" where
  "save writable file e fs =
     (if writable file then (True, fs(file := Some (concat (map (\<lambda>l. l @ [NL]) (m_lines e)))))
      else (False, fs))"

section \<open>Reading back what was written\<close>

lemma getlines_line:
  "NL \<notin> set l \<Longrightarrow> getlines acc (l @ NL # xs) = (rev acc @ l) # getlines [] xs"
  by (induction l arbitrary: acc) auto

lemma getlines_saved:
  "\<forall>l \<in> set ls. NL \<notin> set l \<Longrightarrow> getlines [] (concat (map (\<lambda>l. l @ [NL]) ls)) = ls"
  by (induction ls) (simp_all add: getlines_line)

lemma load_loop_append: "load_loop False it L ss = L @ map strip_cr ss"
  by (induction ss arbitrary: L) simp_all

lemma load_loop_first:
  "load_loop True 0 [l] ss = (case ss of [] \<Rightarrow> [l] | s # ss' \<Rightarrow> map strip_cr ss)"
  by (cases ss) (simp_all add: load_loop_append)

lemma strip_cr_id: "s = [] \<or> last s \<noteq> CR \<Longrightarrow> strip_cr s = s"
  by (auto simp: strip_cr_def)

text \<open>The buffer \<open>load\<close> produces from a file content.\<close>

lemma load_Some:
  "fs file = Some content \<Longrightarrow>
     load fs file e = (True, \<lparr>m_lines = (case getlines [] content of [] \<Rightarrow> [[]] | _ \<Rightarrow> map strip_cr (getlines [] content)),
                              m_r = 0, m_c = 0, m_undo = []\<rparr>)"
  by (simp add: load_def reset_def clear_def load_loop_first split: list.split)

text \<open>Saving a buffer and loading the file back gives the same lines in a fresh
  state, when no line holds a newline or ends in a carriage return.\<close>

lemma load_saved:
  assumes "writable f" "m_lines e \<noteq> []"
    and "\<forall>l \<in> set (m_lines e). NL \<notin> set l \<and> (l = [] \<or> last l \<noteq> CR)"
  shows "load (snd (save writable f e fs)) f e2 = (True, \<lparr>m_lines = m_lines e, m_r = 0, m_c = 0, m_undo = []\<rparr>)"
proof -
  define C where "C = concat (map (\<lambda>l. l @ [NL]) (m_lines e))"
  have g: "getlines [] C = m_lines e"
    using assms(3) by (simp add: C_def getlines_saved)
  have m: "map strip_cr (m_lines e) = m_lines e"
    using assms(3) by (simp add: strip_cr_id map_idI)
  have "snd (save writable f e fs) f = Some C"
    using assms(1) by (simp add: save_def C_def)
  from load_Some [of "snd (save writable f e fs)" f C e2, OF this] show ?thesis
    unfolding g m using assms(2) by (simp split: list.split)
qed

text \<open>In general the file holds one line per newline written, so a buffer
  whose lines hold newlines comes back with more lines than it had.\<close>

lemma length_getlines_line:
  "length (getlines acc (l @ NL # rest)) = Suc (count_list l NL) + length (getlines [] rest)"
  by (induction l arbitrary: acc) auto

lemma length_getlines_saved:
  "length (getlines [] (concat (map (\<lambda>l. l @ [NL]) ls))) = length ls + sum_list (map (\<lambda>l. count_list l NL) ls)"
  by (induction ls) (simp_all add: length_getlines_line)

lemma load_saved_length:
  assumes "writable f" "m_lines e \<noteq> []"
  shows "length (m_lines (snd (load (snd (save writable f e fs)) f e2))) =
    length (m_lines e) + sum_list (map (\<lambda>l. count_list l NL) (m_lines e))"
proof -
  define C where "C = concat (map (\<lambda>l. l @ [NL]) (m_lines e))"
  have "snd (save writable f e fs) f = Some C"
    using assms(1) by (simp add: save_def C_def)
  moreover have "getlines [] C \<noteq> []"
    using length_getlines_saved [of "m_lines e"] assms(2) unfolding C_def by (metis length_0_conv add_is_0)
  ultimately have "m_lines (snd (load (snd (save writable f e fs)) f e2)) = map strip_cr (getlines [] C)"
    using load_Some [of "snd (save writable f e fs)" f C e2] by (cases "getlines [] C") simp_all
  then show ?thesis using length_getlines_saved [of "m_lines e"] by (simp add: C_def)
qed

end
