(* ===== verification/Session.thy ===== *)
theory Session
  imports Undo_Runs Editor_IO
begin

text \<open>
  Sequences of calls on one editor, as the command surface (outside the sources)
  issues them. A command is one public mutating operation of
  \<^verbatim>\<open>StudentTextEditor\<close>; \<^verbatim>\<open>save\<close>, \<^verbatim>\<open>getPos\<close> and \<^verbatim>\<open>getLines\<close> do not
  change the editor and are left out. \<open>step\<close> is \<open>None\<close> exactly where
  \<^verbatim>\<open>undo()\<close> would throw; \<open>reachable\<close> holds for the states of every call
  sequence from a fresh editor. The invariant of the whole program is
  \<open>session_inv\<close>: the cursor is inside the buffer and the undo log explains the
  buffer from the version last loaded or reset.
\<close>

datatype cmd = Move dir | Del | Backspace | Insert char | Enter | Undo | Reset | Load files string

fun step :: "cmd \<Rightarrow> editor \<Rightarrow> editor option" where
  "step (Move d) e = Some (move d e)"
| "step Del e = Some (del e)"
| "step Backspace e = Some (backspace e)"
| "step (Insert x) e = Some (insert_ed x e)"
| "step Enter e = Some (enter e)"
| "step Undo e = undo e"
| "step Reset e = Some (reset e)"
| "step (Load fs f) e = Some (snd (load fs f e))"

fun run :: "cmd list \<Rightarrow> editor \<Rightarrow> editor option" where
  "run [] e = Some e"
| "run (c # cs) e = (case step c e of None \<Rightarrow> None | Some e' \<Rightarrow> run cs e')"

inductive reachable :: "editor \<Rightarrow> bool" where
  init: "reachable (new_editor [])"
| step: "reachable e \<Longrightarrow> step c e = Some e' \<Longrightarrow> reachable e'"

definition session_inv :: "editor \<Rightarrow> bool" where
  "session_inv e \<longleftrightarrow> cursor_ok e \<and> (\<exists>L0. explains L0 e)"

section \<open>Every step keeps the invariant\<close>

lemma session_inv_load: "session_inv (snd (load fs f e))" if "session_inv e"
proof (cases "fs f")
  case None
  with that show ?thesis by (simp add: load_def)
next
  case (Some content)
  then show ?thesis
    by (auto simp: session_inv_def load_Some cursor_ok_def explains_def split: list.split)
qed

lemma session_inv_step:
  assumes "session_inv e" "step c e = Some e'"
  shows "session_inv e'"
proof (cases c)
  case Undo
  from assms(1) obtain L0 where c: "cursor_ok e" and x: "explains L0 e"
    by (auto simp: session_inv_def)
  show ?thesis
  proof (cases "m_undo e = []")
    case True
    with assms(2) Undo c x show ?thesis by (auto simp: session_inv_def undo_empty)
  next
    case False
    from undo_explained [OF x False] assms(2) Undo show ?thesis
      by (auto simp: session_inv_def)
  qed
next
  case (Load fs f)
  with assms show ?thesis using session_inv_load [OF assms(1), of fs f] by simp
qed (use assms in \<open>auto simp: session_inv_def cursor_inv intro: explains_inv\<close>)

lemma reachable_session_inv: "reachable e \<Longrightarrow> session_inv e"
proof (induction rule: reachable.induct)
  case init
  show ?case
    using cursor_ok_new_editor [of "[]"] by (auto simp: session_inv_def explains_def new_editor_def)
next
  case (step e c e')
  then show ?case using session_inv_step by blast
qed

lemma run_reachable: "reachable e \<Longrightarrow> run cs e = Some e' \<Longrightarrow> reachable e'"
proof (induction cs arbitrary: e)
  case Nil
  then show ?case by simp
next
  case (Cons c cs)
  then obtain e1 where "step c e = Some e1" "run cs e1 = Some e'"
    by (auto split: option.splits)
  with Cons show ?case by (blast intro: reachable.step)
qed

section \<open>Undoing everything\<close>

text \<open>Each \<open>undo\<close> pops at least one record and an \<open>undo\<close> on an empty log
  does nothing, so as many undos as there are records empty the log, and the
  buffer is then the one the log started from.\<close>

lemma run_undos:
  assumes "explains L0 e" "length (m_undo e) \<le> n"
  shows "\<exists>e'. run (replicate n Undo) e = Some e' \<and> m_undo e' = [] \<and> m_lines e' = L0"
  using assms
proof (induction n arbitrary: e)
  case 0
  then show ?case by (simp add: explains_def)
next
  case (Suc n)
  show ?case
  proof (cases "m_undo e = []")
    case True
    with Suc.prems have "explains L0 e" "length (m_undo e) \<le> n" by simp_all
    with Suc.IH [of e] True show ?thesis by (simp add: undo_empty)
  next
    case False
    from undo_explained [OF Suc.prems(1) False] obtain e1 k where
      "undo e = Some e1" "0 < k" "m_undo e1 = drop k (m_undo e)" "explains L0 e1"
      by blast
    moreover from this Suc.prems(2) have "length (m_undo e1) \<le> n" by simp
    ultimately show ?thesis using Suc.IH [of e1] by simp
  qed
qed

end
