(* ===== verification/SpellCheck.thy ===== *)
theory SpellCheck
  imports Editor_IO
begin

text \<open>
  \<^verbatim>\<open>src/Wurd/StudentSpellCheck.cpp\<close>: the dictionary as a trie. A
  \<^verbatim>\<open>Node\<close> is the datatype \<open>node\<close> with its character, its end-of-word flag
  and its 27 child pointers (\<open>ptr\<close>, \<open>None\<close> for \<^verbatim>\<open>nullptr\<close>); the
  trie is a tree, so the pointer structure is the datatype itself and
  \<^verbatim>\<open>cur->next[index] = new Node(c)\<close> is a functional update of the parent.
  Reading \<^verbatim>\<open>next[getIndex(c)]\<close> with \<^verbatim>\<open>getIndex(c) = -1\<close> is undefined
  behaviour in C++; \<open>child\<close> returns \<open>None\<close> there, and every operation that
  reads through it returns \<open>None\<close> for the whole call. \<^verbatim>\<open>tolower\<close> is
  that of the C locale; \<^verbatim>\<open>char\<close> is treated as unsigned, which gives the
  same \<^verbatim>\<open>getIndex\<close> as a signed \<^verbatim>\<open>char\<close> (every byte above 127 is
  \<^verbatim>\<open>-1\<close> either way). The destructor and \<^verbatim>\<open>clear\<close> only free memory and
  are not modelled.

  The abstract dictionary is \<open>in_dict\<close>: the words spelled by a path of
  children from the head to a node whose flag is set, each child standing for the
  letter (or apostrophe) of its index. \<open>wf_node\<close> is the shape invariant:
  27 children everywhere, and the character stored in a child is the letter of
  its index.
\<close>

section \<open>Data and operations\<close>

text \<open>\<^verbatim>\<open>StudentSpellCheck::Node\<close>: \<^verbatim>\<open>val\<close>, \<^verbatim>\<open>end\<close> and \<^verbatim>\<open>next[27]\<close>;
  \<open>new_node c\<close> is \<^verbatim>\<open>new Node(c)\<close>, all children null.\<close>

datatype node = Node (val: char) (is_end: bool) (children: "node option list")

type_synonym ptr = "node option"

definition new_node :: "char \<Rightarrow> node" where
  "new_node c = Node c False (replicate 27 None)"

text \<open>\<^verbatim>\<open>tolower\<close> of the C locale and \<^verbatim>\<open>getIndex\<close>: 0--25 for
  \<^verbatim>\<open>a\<close>--\<^verbatim>\<open>z\<close>, 26 for the apostrophe, \<^verbatim>\<open>-1\<close> otherwise;
  \<open>letter\<close> is the character a child index stands for.\<close>

definition tolower :: "char \<Rightarrow> char" where
  "tolower c = (if (65::nat) \<le> of_char c \<and> of_char c \<le> (90::nat) then char_of (of_char c + (32::nat)) else c)"

definition getIndex :: "char \<Rightarrow> int" where
  "getIndex c = (if c = CHR 0x27 then 26
                  else if 0 \<le> int (of_char c) - 97 \<and> int (of_char c) - 97 \<le> 25 then int (of_char c) - 97
                  else -1)"

definition letter :: "nat \<Rightarrow> char" where
  "letter l = (if l = 26 then CHR 0x27 else char_of (97 + l))"

text \<open>The shape invariant of the trie.\<close>

fun wf_node :: "node \<Rightarrow> bool" and wf_children :: "nat \<Rightarrow> ptr list \<Rightarrow> bool" where
  "wf_node (Node v e ns) = (length ns = 27 \<and> wf_children 0 ns)"
| "wf_children l [] = True"
| "wf_children l (None # ps) = wf_children (Suc l) ps"
| "wf_children l (Some t # ps) = (val t = letter l \<and> wf_node t \<and> wf_children (Suc l) ps)"

text \<open>\<^verbatim>\<open>cur->next[i]\<close>: \<open>None\<close> when \<open>i\<close> is outside the array
  (undefined behaviour), otherwise the pointer stored there.\<close>

definition child :: "node \<Rightarrow> int \<Rightarrow> ptr option" where
  "child n i = (if 0 \<le> i \<and> i < 27 then Some (children n ! nat i) else None)"

text \<open>\<^verbatim>\<open>checkWord\<close>: the loop walks down while \<^verbatim>\<open>cur\<close> is not null,
  and the word is found if it ends on a node whose flag is set.\<close>

fun check_loop :: "ptr \<Rightarrow> string \<Rightarrow> ptr option" where
  "check_loop cur [] = Some cur"
| "check_loop None (x # xs) = Some None"
| "check_loop (Some n) (x # xs) =
     (case child n (getIndex (tolower x)) of None \<Rightarrow> None | Some p \<Rightarrow> check_loop p xs)"

definition checkWord :: "node \<Rightarrow> string \<Rightarrow> bool option" where
  "checkWord head word =
     map_option (\<lambda>cur. case cur of None \<Rightarrow> False | Some n \<Rightarrow> is_end n) (check_loop (Some head) word)"

text \<open>The body of the \<^verbatim>\<open>getline\<close> loop of \<^verbatim>\<open>load\<close>: characters whose
  index is \<^verbatim>\<open>-1\<close> are skipped, missing nodes are created, and the node
  reached at the end of the line gets its flag set.\<close>

fun ins_loop :: "node \<Rightarrow> string \<Rightarrow> node" where
  "ins_loop n [] = Node (val n) True (children n)"
| "ins_loop n (x # xs) =
     (let c = tolower x; i = getIndex c in
      if i \<noteq> -1 then
        (let t = (case children n ! nat i of None \<Rightarrow> new_node c | Some t \<Rightarrow> t)
         in Node (val n) (is_end n) ((children n)[nat i := Some (ins_loop t xs)]))
      else ins_loop n xs)"

text \<open>\<^verbatim>\<open>StudentSpellCheck::load\<close>: every line of the file is inserted
  into the trie as it is (the trie is not emptied first).\<close>

definition load_dict :: "files \<Rightarrow> string \<Rightarrow> node \<Rightarrow> bool \<times> node" where
  "load_dict fs file head =
     (case fs file of
        None \<Rightarrow> (False, head)
      | Some content \<Rightarrow> (True, fold (\<lambda>str h. ins_loop h str) (getlines [] content) head))"

text \<open>\<^verbatim>\<open>spellCheck\<close>. \<open>follow\<close> is the innermost loop (over \<^verbatim>\<open>k\<close>):
  it appends the rest of the word to the suggestion while walking down from the
  changed letter. \<open>scan\<close> is the loop over the 27 children (\<^verbatim>\<open>l\<close>) of
  \<^verbatim>\<open>cur\<close>, trying each one whose character differs from the word's;
  \<open>suggest\<close> is the outer loop over the positions \<^verbatim>\<open>j\<close> of the word, with
  \<^verbatim>\<open>s\<close> the number of suggestions found. \<^verbatim>\<open>curSug.substr(0, j)\<close> is
  \<open>take j\<close> (the suggestion is never shorter than \<open>j\<close>).\<close>

fun follow :: "ptr \<Rightarrow> string \<Rightarrow> string \<Rightarrow> (string \<times> ptr) option" where
  "follow temp sug [] = Some (sug, temp)"
| "follow None sug (x # xs) = Some (sug, None)"
| "follow (Some t) sug (x # xs) =
     (let c2 = tolower x in
      case child t (getIndex c2) of None \<Rightarrow> None | Some p \<Rightarrow> follow p (sug @ [c2]) xs)"

fun scan :: "nat \<Rightarrow> char \<Rightarrow> string \<Rightarrow> string \<Rightarrow> ptr list \<Rightarrow> int \<Rightarrow> string list \<Rightarrow>
    (string \<times> int \<times> string list) option" where
  "scan j c rest curSug [] s sugs = Some (curSug, s, sugs)"
| "scan j c rest curSug (p # ps) s sugs =
     (case p of
        None \<Rightarrow> scan j c rest curSug ps s sugs
      | Some t \<Rightarrow>
          if val t \<noteq> c then
            (case follow (Some t) (curSug @ [val t]) rest of
               None \<Rightarrow> None
             | Some (sug, temp) \<Rightarrow>
                 (let found = (case temp of None \<Rightarrow> False | Some n \<Rightarrow> is_end n)
                  in scan j c rest (take j sug) ps (if found then s + 1 else s)
                       (if found then sugs @ [sug] else sugs)))
          else scan j c rest curSug ps s sugs)"

fun suggest :: "int \<Rightarrow> string \<Rightarrow> nat \<Rightarrow> int \<Rightarrow> ptr \<Rightarrow> string \<Rightarrow> string list \<Rightarrow> string list option" where
  "suggest maxS [] j s cur curSug sugs = Some sugs"
| "suggest maxS (x # xs) j s None curSug sugs = Some sugs"
| "suggest maxS (x # xs) j s (Some n) curSug sugs =
     (if s < maxS then
        (let c = tolower x in
         case scan j c xs curSug (children n) s sugs of
           None \<Rightarrow> None
         | Some (curSug', s', sugs') \<Rightarrow>
             (case child n (getIndex c) of
                None \<Rightarrow> None
              | Some p \<Rightarrow> suggest maxS xs (Suc j) s' p (curSug' @ [c]) sugs'))
      else Some sugs)"

text \<open>A word of the dictionary is reported as such with the vector
  untouched; otherwise the vector is cleared and refilled.\<close>

definition spellCheck :: "node \<Rightarrow> string \<Rightarrow> int \<Rightarrow> string list \<Rightarrow> (bool \<times> string list) option" where
  "spellCheck head word maxS suggestions =
     (case checkWord head word of
        None \<Rightarrow> None
      | Some True \<Rightarrow> Some (True, suggestions)
      | Some False \<Rightarrow> map_option (\<lambda>sugs. (False, sugs)) (suggest maxS word 0 0 (Some head) [] []))"

text \<open>\<^verbatim>\<open>spellCheckLine\<close>: a pass over the positions \<^verbatim>\<open>0..size\<close> of
  the line with \<^verbatim>\<open>pos.start\<close> the start of the current run of letters and
  apostrophes (\<^verbatim>\<open>-1\<close> outside a run); \<open>close_word\<close> is what happens at a
  position that ends a run: the run is checked and reported as
  \<^verbatim>\<open>(start, i - 1)\<close> if it is no word.\<close>

definition close_word :: "node \<Rightarrow> string \<Rightarrow> nat \<Rightarrow> int \<Rightarrow> (int \<times> int) list \<Rightarrow> (int \<times> int) list option" where
  "close_word head line i st problems =
     (if st \<noteq> -1 then
        (case checkWord head (take (i - nat st) (drop (nat st) line)) of
           None \<Rightarrow> None
         | Some b \<Rightarrow> Some (if \<not> b then problems @ [(st, int i - 1)] else problems))
      else Some problems)"

fun line_loop :: "node \<Rightarrow> string \<Rightarrow> string \<Rightarrow> nat \<Rightarrow> int \<Rightarrow> (int \<times> int) list \<Rightarrow> (int \<times> int) list option" where
  "line_loop head line [] i st problems = close_word head line i st problems"
| "line_loop head line (x # xs) i st problems =
     (if getIndex (tolower x) = -1 then
        (case close_word head line i st problems of
           None \<Rightarrow> None
         | Some ps \<Rightarrow> line_loop head line xs (Suc i) (-1) ps)
      else if st = -1 then line_loop head line xs (Suc i) (int i) problems
      else line_loop head line xs (Suc i) st problems)"

definition spellCheckLine :: "node \<Rightarrow> string \<Rightarrow> (int \<times> int) list option" where
  "spellCheckLine head line = line_loop head line line 0 (-1) []"


section \<open>The abstract dictionary\<close>

text \<open>The words of a trie, and the word a dictionary line stands for once the
  characters \<^verbatim>\<open>load\<close> skips are dropped.\<close>

inductive in_dict :: "node \<Rightarrow> string \<Rightarrow> bool" where
  word_end: "is_end n \<Longrightarrow> in_dict n []"
| word_step: "l < length (children n) \<Longrightarrow> children n ! l = Some t \<Longrightarrow> in_dict t w \<Longrightarrow> in_dict n (letter l # w)"

inductive_simps in_dict_Nil: "in_dict n []"
inductive_simps in_dict_Cons: "in_dict n (x # w)"

text \<open>The paths of a trie: the strings spelled from the head down to any node,
  whether a word ends there or not.\<close>

inductive has_path :: "node \<Rightarrow> string \<Rightarrow> bool" where
  path_nil: "has_path n []"
| path_step: "l < length (children n) \<Longrightarrow> children n ! l = Some t \<Longrightarrow> has_path t w \<Longrightarrow> has_path n (letter l # w)"

inductive_simps has_path_Cons: "has_path n (x # w)"

definition clean :: "string \<Rightarrow> string" where
  "clean s = filter (\<lambda>c. getIndex c \<noteq> -1) (map tolower s)"

text \<open>A reference for \<^verbatim>\<open>spellCheckLine\<close>: the maximal runs of letters and
  apostrophes of a line, found by skipping the other characters and taking the
  longest run that follows (\<open>runs_from xs i\<close> for the suffix \<open>xs\<close> of the
  line at position \<open>i\<close>), and those of them that are no dictionary word.\<close>

definition valid :: "char \<Rightarrow> bool" where
  "valid c \<longleftrightarrow> getIndex (tolower c) \<noteq> -1"

function runs_from :: "string \<Rightarrow> nat \<Rightarrow> (nat \<times> nat) list" where
  "runs_from xs i =
     (let k = length (takeWhile (\<lambda>c. \<not> valid c) xs); ys = drop k xs;
          n = length (takeWhile valid ys)
      in if n = 0 then [] else (i + k, i + k + n - 1) # runs_from (drop n ys) (i + k + n))"
  by pat_completeness auto

termination
proof (relation "measure (\<lambda>(xs, i). length xs)")
  fix xs :: string and i k ys n
  assume k: "k = length (takeWhile (\<lambda>c. \<not> valid c) xs)" and ys: "ys = drop k xs"
    and n: "n = length (takeWhile valid ys)" and "n \<noteq> 0"
  then have "ys \<noteq> []" by auto
  then have "k < length xs" using ys by simp
  with \<open>n \<noteq> 0\<close> show "((drop n ys, i + k + n), xs, i) \<in> measure (\<lambda>(xs, i). length xs)"
    using ys by simp
qed simp

definition bad_runs :: "node \<Rightarrow> string \<Rightarrow> (int \<times> int) list" where
  "bad_runs h line =
     map (\<lambda>(s, e). (int s, int e))
       (filter (\<lambda>(s, e). \<not> in_dict h (map tolower (take (Suc e - s) (drop s line)))) (runs_from line 0))"

text \<open>What a run is, declaratively: a non-empty stretch of letters and
  apostrophes with no such character just before or just after it.\<close>

definition is_run :: "string \<Rightarrow> nat \<Rightarrow> nat \<Rightarrow> bool" where
  "is_run xs s e \<longleftrightarrow> s \<le> e \<and> e < length xs \<and> (\<forall>k \<in> {s..e}. valid (xs ! k)) \<and>
     (s = 0 \<or> \<not> valid (xs ! (s - 1))) \<and> (Suc e = length xs \<or> \<not> valid (xs ! Suc e))"

section \<open>Characters and shape\<close>

lemma of_char_letter: "l < 26 \<Longrightarrow> of_char (char_of (97 + l) :: char) = (97 + l :: nat)"
  by (simp add: of_char_of)

lemma getIndex_valid:
  "getIndex c \<noteq> -1 \<Longrightarrow> 0 \<le> getIndex c \<and> getIndex c < 27 \<and> letter (nat (getIndex c)) = c"
proof -
  assume a: "getIndex c \<noteq> -1"
  show ?thesis
  proof (cases "c = CHR 0x27")
    case True then show ?thesis by (simp add: getIndex_def letter_def)
  next
    case False
    with a have r: "97 \<le> (of_char c :: nat)" "(of_char c :: nat) \<le> 122" "getIndex c = int (of_char c) - 97"
      by (auto simp: getIndex_def split: if_splits)
    then have "letter (nat (getIndex c)) = char_of (of_char c :: nat)"
      by (auto simp: letter_def nat_diff_distrib)
    with r show ?thesis by simp
  qed
qed

lemma getIndex_letter: "l < 27 \<Longrightarrow> getIndex (letter l) = int l"
proof (cases "l = 26")
  case False
  moreover assume "l < 27"
  ultimately have "l < 26" by simp
  then have "(of_char (letter l) :: nat) = 97 + l"
    using False by (simp add: letter_def of_char_letter)
  moreover have "letter l \<noteq> CHR 0x27"
  proof
    assume "letter l = CHR 0x27"
    then have "(of_char (letter l) :: nat) = 39" by simp
    with \<open>(of_char (letter l) :: nat) = 97 + l\<close> show False by simp
  qed
  ultimately show ?thesis using \<open>l < 26\<close> by (simp add: getIndex_def)
qed (simp add: getIndex_def letter_def)

lemma letter_inj: "l < 27 \<Longrightarrow> k < 27 \<Longrightarrow> letter l = letter k \<longleftrightarrow> l = k"
  by (metis getIndex_letter of_nat_eq_iff)

lemma in_dict_code [code]:
  "in_dict n [] = is_end n"
  "in_dict n (x # w) = (\<exists>l \<in> set [0..<length (children n)]. x = letter l \<and>
      (case children n ! l of None \<Rightarrow> False | Some t \<Rightarrow> in_dict t w))"
  by (auto simp: in_dict_Nil in_dict_Cons split: option.splits)

lemma has_path_code [code]:
  "has_path n [] = True"
  "has_path n (x # w) = (\<exists>l \<in> set [0..<length (children n)]. x = letter l \<and>
      (case children n ! l of None \<Rightarrow> False | Some t \<Rightarrow> has_path t w))"
  by (auto simp: has_path_Cons intro: path_nil split: option.splits)

lemma wf_children_iff:
  "wf_children l ps \<longleftrightarrow> (\<forall>k < length ps. \<forall>t. ps ! k = Some t \<longrightarrow> val t = letter (l + k) \<and> wf_node t)"
proof (induction ps arbitrary: l)
  case Nil
  then show ?case by simp
next
  case (Cons p ps)
  then show ?case by (cases p) (auto simp: All_less_Suc2)
qed

lemma wf_node_children:
  "wf_node n \<Longrightarrow> length (children n) = 27 \<and> wf_children 0 (children n)"
  by (cases n) simp

lemma wf_child:
  "wf_node n \<Longrightarrow> k < 27 \<Longrightarrow> children n ! k = Some t \<Longrightarrow> val t = letter k \<and> wf_node t"
  using wf_node_children [of n] by (simp add: wf_children_iff)

lemma in_dict_Cons_wf:
  assumes "wf_node n"
  shows "in_dict n (x # w) \<longleftrightarrow>
    getIndex x \<noteq> -1 \<and> (\<exists>t. children n ! nat (getIndex x) = Some t \<and> in_dict t w)"
proof
  assume "in_dict n (x # w)"
  then obtain l t where "x = letter l" "l < length (children n)" "children n ! l = Some t" "in_dict t w"
    by (auto simp: in_dict_Cons)
  with wf_node_children [OF assms] show "getIndex x \<noteq> -1 \<and> (\<exists>t. children n ! nat (getIndex x) = Some t \<and> in_dict t w)"
    by (auto simp: getIndex_letter)
next
  assume a: "getIndex x \<noteq> -1 \<and> (\<exists>t. children n ! nat (getIndex x) = Some t \<and> in_dict t w)"
  with getIndex_valid [of x] wf_node_children [OF assms] show "in_dict n (x # w)"
    by (auto simp: in_dict_Cons intro!: exI [of _ "nat (getIndex x)"])
qed

section \<open>Looking up a word\<close>

lemma check_loop_None: "check_loop None w = Some None"
  by (cases w) simp_all

lemma checkWord_valid:
  "wf_node n \<Longrightarrow> \<forall>x \<in> set w. valid x \<Longrightarrow>
     checkWord n w = Some (in_dict n (map tolower w))"
proof (induction w arbitrary: n)
  case Nil
  then show ?case by (simp add: checkWord_def in_dict_Nil)
next
  case (Cons x w)
  define i where "i = getIndex (tolower x)"
  from Cons.prems getIndex_valid [of "tolower x"] have i: "0 \<le> i" "i < 27" "i \<noteq> -1"
    by (auto simp: i_def valid_def)
  show ?case
  proof (cases "children n ! nat i")
    case None
    with i Cons.prems(1) show ?thesis
      by (simp add: checkWord_def child_def in_dict_Cons_wf check_loop_None i_def [symmetric])
  next
    case (Some t)
    with i Cons.prems(1) have "wf_node t" using wf_child [of n "nat i" t] by simp
    with Cons.IH [of t] Cons.prems(2) have "checkWord t w = Some (in_dict t (map tolower w))" by simp
    with Some i Cons.prems(1) show ?thesis
      by (simp add: checkWord_def child_def in_dict_Cons_wf i_def [symmetric])
  qed
qed

section \<open>Loading\<close>

lemma wf_new_node: "wf_node (new_node c)"
  by (simp add: new_node_def wf_children_iff)

lemma not_in_dict_new_node: "\<not> in_dict (new_node c) w"
  by (cases w) (auto simp: new_node_def in_dict_Nil in_dict_Cons)

lemma clean_Cons:
  "clean (x # xs) = (if getIndex (tolower x) \<noteq> -1 then tolower x # clean xs else clean xs)"
  by (simp add: clean_def)

lemma wf_update:
  assumes "wf_node n" "k < 27" "val t = letter k" "wf_node t"
  shows "wf_node (Node v e ((children n)[k := Some t]))"
  using wf_node_children [OF assms(1)] assms(2-4) by (auto simp: wf_children_iff nth_list_update)


text \<open>One pass of the insertion loop adds exactly the cleaned line to the
  words of a well-formed trie; so does loading a file, line by line.\<close>

lemma ins_loop_spec:
  "wf_node n \<Longrightarrow> val (ins_loop n s) = val n \<and> wf_node (ins_loop n s) \<and>
     (\<forall>w. in_dict (ins_loop n s) w \<longleftrightarrow> w = clean s \<or> in_dict n w)"
proof (induction n s rule: ins_loop.induct)
  case (1 n)
  have "in_dict (ins_loop n []) w \<longleftrightarrow> w = [] \<or> in_dict n w" for w
    by (cases n; cases w) (auto simp: in_dict_Nil in_dict_Cons)
  with 1 show ?case by (cases n) (simp add: clean_def)
next
  case (2 n x xs)
  define c where "c = tolower x"
  define i where "i = nat (getIndex c)"
  show ?case
  proof (cases "getIndex c = -1")
    case True
    with "2.IH"(2) [OF c_def refl] "2.prems" show ?thesis
      by (simp add: c_def clean_Cons)
  next
    case False
    define t where "t = (case children n ! i of None \<Rightarrow> new_node c | Some t \<Rightarrow> t)"
    from getIndex_valid [OF False] have i: "i < 27" "letter i = c" "getIndex c = int i"
      by (auto simp: i_def)
    have t: "wf_node t" "val t = c" "\<forall>w. in_dict t w \<longleftrightarrow> (\<exists>t0. children n ! i = Some t0 \<and> in_dict t0 w)"
      using wf_child [OF "2.prems" i(1)] i(2) wf_new_node not_in_dict_new_node
      by (auto simp: t_def new_node_def split: option.splits)
    have teq: "(case children n ! nat (getIndex c) of None \<Rightarrow> new_node c | Some t \<Rightarrow> t) = t"
      by (simp add: t_def i_def)
    from "2.IH"(1) [OF c_def refl False refl, unfolded teq, OF t(1)] t(2) have ih:
      "val (ins_loop t xs) = c" "wf_node (ins_loop t xs)"
      "\<forall>w. in_dict (ins_loop t xs) w \<longleftrightarrow> w = clean xs \<or> in_dict t w"
      by simp_all
    define n' where "n' = Node (val n) (is_end n) ((children n)[i := Some (ins_loop t xs)])"
    have eq: "ins_loop n (x # xs) = n'"
      using False by (simp add: n'_def t_def i_def Let_def c_def [symmetric])
    have wf': "wf_node n'"
      unfolding n'_def using wf_update [OF "2.prems" i(1)] ih i by simp
    have len: "length (children n) = 27" using wf_node_children [OF "2.prems"] by simp
    have cn': "children n' = (children n)[i := Some (ins_loop t xs)]" by (simp add: n'_def)
    have "in_dict n' w \<longleftrightarrow> w = clean (x # xs) \<or> in_dict n w" for w
    proof (cases w)
      case Nil
      then show ?thesis using False by (simp add: n'_def in_dict_Nil clean_Cons c_def)
    next
      case (Cons y w')
      show ?thesis
      proof (cases "getIndex y \<noteq> -1 \<and> nat (getIndex y) = i")
        case True
        with getIndex_valid [of y] i have "y = c" by auto
        with True Cons show ?thesis using len ih(3) t(3) False i(1)
          by (auto simp: in_dict_Cons_wf [OF wf'] in_dict_Cons_wf [OF "2.prems"] cn' clean_Cons c_def)
      next
        case False
        with Cons show ?thesis using len i \<open>getIndex c \<noteq> -1\<close>
          by (auto simp: in_dict_Cons_wf [OF wf'] in_dict_Cons_wf [OF "2.prems"] cn' clean_Cons c_def [symmetric])
      qed
    qed
    with eq wf' show ?thesis by (simp add: n'_def)
  qed
qed

lemma fold_ins_loop_spec:
  "wf_node n \<Longrightarrow> wf_node (fold (\<lambda>str h. ins_loop h str) ls n) \<and>
     (\<forall>w. in_dict (fold (\<lambda>str h. ins_loop h str) ls n) w \<longleftrightarrow> w \<in> clean ` set ls \<or> in_dict n w)"
  by (induction ls arbitrary: n) (auto simp: ins_loop_spec)

section \<open>Checking a line\<close>

lemma line_loop_valid:
  "\<forall>c \<in> set vs. valid c \<Longrightarrow>
     line_loop h line (vs @ rest) i st ps =
     line_loop h line rest (i + length vs) (if st = -1 \<and> vs \<noteq> [] then int i else st) ps"
  by (induction vs arbitrary: i st) (auto simp: valid_def)

lemma line_loop_invalid:
  "\<forall>c \<in> set us. \<not> valid c \<Longrightarrow>
     line_loop h line (us @ rest) i (-1) ps = line_loop h line rest (i + length us) (-1) ps"
  by (induction us arbitrary: i) (auto simp: valid_def close_word_def)

lemma close_word_run:
  assumes "wf_node h" "drop s line = vs @ zs" "\<forall>c \<in> set vs. valid c"
  shows "close_word h line (s + length vs) (int s) ps =
    Some (if \<not> in_dict h (map tolower vs) then ps @ [(int s, int (s + length vs) - 1)] else ps)"
proof -
  have "take (s + length vs - s) (drop s line) = vs" using assms(2) by simp
  with checkWord_valid [OF assms(1), of vs] assms(3) show ?thesis
    by (simp add: close_word_def valid_def)
qed

lemma line_loop_runs:
  "wf_node h \<Longrightarrow> xs = drop i line \<Longrightarrow>
     line_loop h line xs i (-1) ps =
     Some (ps @ map (\<lambda>(s, e). (int s, int e))
       (filter (\<lambda>(s, e). \<not> in_dict h (map tolower (take (Suc e - s) (drop s line)))) (runs_from xs i)))"
proof (induction xs i arbitrary: ps rule: runs_from.induct)
  case (1 xs i)
  define us where "us = takeWhile (\<lambda>c. \<not> valid c) xs"
  define ys where "ys = drop (length us) xs"
  define vs where "vs = takeWhile valid ys"
  define zs where "zs = drop (length vs) ys"
  have "us @ ys = xs" unfolding us_def ys_def by (metis append_take_drop_id takeWhile_eq_take)
  moreover have "vs @ zs = ys" unfolding vs_def zs_def by (metis append_take_drop_id takeWhile_eq_take)
  ultimately have xs: "xs = us @ vs @ zs" by simp
  have us: "\<forall>c \<in> set us. \<not> valid c" and vs: "\<forall>c \<in> set vs. valid c"
    by (auto simp: us_def vs_def dest: set_takeWhileD)
  have rf: "runs_from xs i = (if vs = [] then [] else
      (i + length us, i + length us + length vs - 1) # runs_from zs (i + length us + length vs))"
    by (simp add: Let_def us_def ys_def vs_def zs_def del: runs_from.simps) (simp add: Let_def)
  have step: "line_loop h line xs i (-1) ps =
      line_loop h line zs (i + length us + length vs) (if vs = [] then -1 else int (i + length us)) ps"
    using line_loop_invalid [OF us, of h line "vs @ zs" i ps] line_loop_valid [OF vs] xs by simp
  show ?case
  proof (cases "vs = []")
    case True
    have ys_dw: "ys = dropWhile (\<lambda>c. \<not> valid c) xs" by (simp add: ys_def us_def dropWhile_eq_drop)
    have "ys = []"
    proof (rule ccontr)
      assume "ys \<noteq> []"
      then have "valid (hd ys)" using hd_dropWhile [of "\<lambda>c. \<not> valid c" xs] ys_dw by simp
      then have "vs \<noteq> []" using \<open>ys \<noteq> []\<close> by (cases ys) (simp_all add: vs_def)
      with True show False by simp
    qed
    then have "zs = []" by (simp add: zs_def)
    with True step rf show ?thesis by (simp add: close_word_def)
  next
    case False
    have drop: "drop (i + length us) line = vs @ zs" using "1.prems"(2) xs
      by (metis add.commute drop_drop append_eq_conv_conj)
    have cw: "close_word h line (i + length us + length vs) (int (i + length us)) ps =
      Some (if \<not> in_dict h (map tolower vs) then ps @ [(int (i + length us), int (i + length us + length vs) - 1)] else ps)"
      using close_word_run [OF "1.prems"(1) drop vs] by simp
    show ?thesis
    proof (cases zs)
      case Nil
      have "int (i + length us + length vs - Suc 0) = int (i + length us + length vs) - 1"
        using False by (cases vs) simp_all
      with False step rf cw drop Nil show ?thesis by simp
    next
      case (Cons z zs')
      have "zs = dropWhile valid ys" by (simp add: zs_def vs_def dropWhile_eq_drop)
      then have z: "\<not> valid z" using hd_dropWhile [of valid ys] Cons by (metis list.distinct(1) list.sel(1))
      define j where "j = i + length us + length vs"
      define ps' where "ps' = (if \<not> in_dict h (map tolower vs) then ps @ [(int (i + length us), int j - 1)] else ps)"
      have "line_loop h line xs i (-1) ps = line_loop h line zs j (-1) ps'"
        using step cw False Cons z by (simp add: j_def ps'_def valid_def close_word_def)
      also have "\<dots> = Some (ps' @ map (\<lambda>(s, e). (int s, int e))
          (filter (\<lambda>(s, e). \<not> in_dict h (map tolower (take (Suc e - s) (drop s line)))) (runs_from zs j)))"
      proof -
        note ih = "1.IH" [OF refl refl refl, folded us_def, folded ys_def, folded vs_def, folded zs_def]
        have "drop (length vs) (drop (i + length us) line) = zs" using drop by simp
        then have "zs = drop j line" by (simp add: j_def ac_simps)
        with ih [of ps'] False "1.prems"(1) show ?thesis by (simp add: j_def)
      qed
      moreover have "int (i + length us + length vs - Suc 0) = int (i + length us + length vs) - 1"
        using False by (cases vs) simp_all
      ultimately show ?thesis using rf False drop by (simp add: ps'_def j_def)
    qed
  qed
qed

section \<open>Suggestions\<close>

text \<open>Every suggestion \<^verbatim>\<open>spellCheck\<close> collects is a word of the dictionary
  that differs from the lowercased word in exactly one position: \<open>follow\<close>
  only completes a path of the trie, \<open>scan\<close> only tries children whose
  character differs from the word's, and \<open>suggest\<close> keeps the prefix it has
  walked down. On a word of letters and apostrophes no loop reads outside the
  child array.\<close>

lemma in_dict_child:
  "wf_node n \<Longrightarrow> Some t \<in> set (children n) \<Longrightarrow> in_dict t w \<Longrightarrow> in_dict n (val t # w)"
proof -
  assume wf: "wf_node n" and t: "Some t \<in> set (children n)" and w: "in_dict t w"
  from t obtain l where l: "l < length (children n)" "children n ! l = Some t"
    by (auto simp: in_set_conv_nth)
  with wf have "val t = letter l" using wf_child [of n l t] wf_node_children [OF wf] by simp
  with l w show ?thesis by (auto intro: in_dict.word_step)
qed

lemma wf_child_set: "wf_node n \<Longrightarrow> Some t \<in> set (children n) \<Longrightarrow> wf_node t"
  using wf_node_children [of n] by (auto simp: wf_children_iff in_set_conv_nth)

lemma follow_prefix: "follow p sug rest = Some (sug', temp) \<Longrightarrow> \<exists>ext. sug' = sug @ ext"
proof (induction p sug rest rule: follow.induct)
  case (3 t sug x xs)
  then obtain p where "child t (getIndex (tolower x)) = Some p"
    "follow p (sug @ [tolower x]) xs = Some (sug', temp)"
    by (auto simp: Let_def split: option.splits)
  from "3.IH" [OF refl this] show ?case by auto
qed auto

lemma follow_word:
  "wf_node t \<Longrightarrow> follow (Some t) sug rest = Some (sug', Some n') \<Longrightarrow> is_end n' \<Longrightarrow>
     sug' = sug @ map tolower rest \<and> in_dict t (map tolower rest)"
proof (induction rest arbitrary: t sug)
  case Nil
  then show ?case by (auto intro: in_dict.word_end)
next
  case (Cons x xs)
  define c2 where "c2 = tolower x"
  from Cons.prems(2) obtain p where ch: "child t (getIndex c2) = Some p"
    and f: "follow p (sug @ [c2]) xs = Some (sug', Some n')"
    by (auto simp: c2_def Let_def split: option.splits)
  from ch have i: "0 \<le> getIndex c2" "getIndex c2 < 27" "p = children t ! nat (getIndex c2)"
    by (auto simp: child_def split: if_splits)
  then have v: "getIndex c2 \<noteq> -1" by simp
  show ?case
  proof (cases p)
    case None
    with f show ?thesis by (cases xs) simp_all
  next
    case (Some t')
    with i Cons.prems(1) have "wf_node t'" "val t' = c2"
      using wf_child [of t "nat (getIndex c2)" t'] getIndex_valid [OF v] by auto
    with Cons.IH [OF this(1) f [unfolded Some] Cons.prems(3)] have
      "sug' = sug @ c2 # map tolower xs" "in_dict t' (map tolower xs)" by simp_all
    moreover have "Some t' \<in> set (children t)"
      using i Some wf_node_children [OF Cons.prems(1)] by (auto simp: in_set_conv_nth intro: exI [of _ "nat (getIndex c2)"])
    ultimately show ?thesis
      using in_dict_child [OF Cons.prems(1)] \<open>val t' = c2\<close> by (fastforce simp: c2_def)
  qed
qed

lemma scan_sound:
  "length curSug = j \<Longrightarrow> (\<forall>t. Some t \<in> set ps \<longrightarrow> wf_node t) \<Longrightarrow>
     scan j c rest curSug ps s sugs = Some (cs', s', sugs') \<Longrightarrow>
     cs' = curSug \<and> (\<exists>new. sugs' = sugs @ new \<and>
       (\<forall>x \<in> set new. \<exists>t. Some t \<in> set ps \<and> val t \<noteq> c \<and> in_dict t (map tolower rest) \<and>
                          x = curSug @ val t # map tolower rest))"
proof (induction ps arbitrary: s sugs)
  case Nil
  then show ?case by simp
next
  case (Cons p ps)
  show ?case
  proof (cases "\<exists>t. p = Some t \<and> val t \<noteq> c")
    case False
    with Cons.prems have "scan j c rest curSug ps s sugs = Some (cs', s', sugs')"
      by (cases p) auto
    with Cons.IH [OF Cons.prems(1) _ this] Cons.prems(2) show ?thesis by fastforce
  next
    case True
    then obtain t where t: "p = Some t" "val t \<noteq> c" by blast
    with Cons.prems obtain sug temp where
      f: "follow (Some t) (curSug @ [val t]) rest = Some (sug, temp)" and
      sc: "scan j c rest (take j sug) ps
             (if (case temp of None \<Rightarrow> False | Some n \<Rightarrow> is_end n) then s + 1 else s)
             (if (case temp of None \<Rightarrow> False | Some n \<Rightarrow> is_end n) then sugs @ [sug] else sugs) =
           Some (cs', s', sugs')"
      by (auto split: option.splits simp: Let_def)
    from follow_prefix [OF f] Cons.prems(1) have tk: "take j sug = curSug" by auto
    have wt: "wf_node t" using Cons.prems(2) t by simp
    let ?found = "case temp of None \<Rightarrow> False | Some n \<Rightarrow> is_end n"
    have fw: "?found \<Longrightarrow> sug = curSug @ val t # map tolower rest \<and> in_dict t (map tolower rest)"
      using follow_word [OF wt, of "curSug @ [val t]" rest sug] f by (auto split: option.splits)
    from Cons.IH [OF Cons.prems(1) _ sc [unfolded tk]] Cons.prems(2) obtain new where
      "cs' = curSug" "sugs' = (if ?found then sugs @ [sug] else sugs) @ new"
      "\<forall>x \<in> set new. \<exists>t. Some t \<in> set ps \<and> val t \<noteq> c \<and> in_dict t (map tolower rest) \<and>
                          x = curSug @ val t # map tolower rest"
      by auto
    with fw t show ?thesis
      by (cases ?found) (fastforce intro!: exI [of _ "sug # new"], fastforce)
  qed
qed

lemma suggest_None: "suggest maxS xs j s None curSug sugs = Some sugs"
  by (cases xs) simp_all

lemma in_dict_child_index:
  assumes "wf_node n" "child n (getIndex c) = Some (Some t)" "in_dict t w"
  shows "in_dict n (c # w)"
proof -
  from assms(2) have i: "0 \<le> getIndex c" "getIndex c < 27" "children n ! nat (getIndex c) = Some t"
    by (auto simp: child_def split: if_splits)
  then have "Some t \<in> set (children n)" "val t = c"
    using wf_node_children [OF assms(1)] wf_child [OF assms(1), of "nat (getIndex c)" t] getIndex_valid [of c]
    by (auto simp: in_set_conv_nth intro: exI [of _ "nat (getIndex c)"])
  with in_dict_child [OF assms(1)] assms(3) show ?thesis by auto
qed

lemma suggest_sound:
  "wf_node n \<Longrightarrow> (\<forall>w. in_dict n w \<longrightarrow> in_dict h (curSug @ w)) \<Longrightarrow>
     curSug = map tolower (take j word) \<Longrightarrow> xs = drop j word \<Longrightarrow>
     suggest maxS xs j s (Some n) curSug sugs = Some sugs' \<Longrightarrow>
     \<exists>new. sugs' = sugs @ new \<and> (\<forall>x \<in> set new. in_dict h x \<and>
        (\<exists>i c. i < length word \<and> c \<noteq> tolower (word ! i) \<and> x = (map tolower word)[i := c]))"
proof (induction xs arbitrary: j s n curSug sugs)
  case Nil
  then show ?case by simp
next
  case (Cons x xs)
  define c where "c = tolower x"
  have jl: "j < length word" using Cons.prems(4) by (cases "j < length word") simp_all
  with Cons.prems(4) have j: "j < length word" "word ! j = x" "xs = drop (Suc j) word"
    by (simp_all add: Cons_nth_drop_Suc [symmetric])
  have "map tolower word = map tolower (take j word @ drop j word)" by simp
  then have W: "map tolower word = curSug @ c # map tolower xs"
    using Cons.prems(3) Cons.prems(4) [symmetric] by (simp add: c_def del: append_take_drop_id)
  have len: "length curSug = j" using Cons.prems(3) j by simp
  show ?case
  proof (cases "s < maxS")
    case False
    with Cons.prems(5) show ?thesis by auto
  next
    case True
    with Cons.prems(5) obtain cs1 s1 sugs1 p where
      sc: "scan j c xs curSug (children n) s sugs = Some (cs1, s1, sugs1)" and
      ch: "child n (getIndex c) = Some p" and
      rec: "suggest maxS xs (Suc j) s1 p (cs1 @ [c]) sugs1 = Some sugs'"
      by (auto simp: c_def Let_def split: option.splits)
    from scan_sound [OF len _ sc] wf_child_set [OF Cons.prems(1)] obtain new1 where
      cs1: "cs1 = curSug" and s1: "sugs1 = sugs @ new1" and
      n1: "\<forall>x \<in> set new1. \<exists>t. Some t \<in> set (children n) \<and> val t \<noteq> c \<and>
             in_dict t (map tolower xs) \<and> x = curSug @ val t # map tolower xs"
      by blast
    have ok1: "\<forall>x \<in> set new1. in_dict h x \<and>
        (\<exists>i c. i < length word \<and> c \<noteq> tolower (word ! i) \<and> x = (map tolower word)[i := c])"
    proof
      fix x assume "x \<in> set new1"
      with n1 obtain t where t: "Some t \<in> set (children n)" "val t \<noteq> c"
        "in_dict t (map tolower xs)" "x = curSug @ val t # map tolower xs" by blast
      then have "in_dict h x" using in_dict_child [OF Cons.prems(1) t(1) t(3)] Cons.prems(2) by simp
      moreover have "x = (map tolower word)[j := val t]" using W len t(4) by (simp add: list_update_append)
      ultimately show "in_dict h x \<and>
        (\<exists>i c. i < length word \<and> c \<noteq> tolower (word ! i) \<and> x = (map tolower word)[i := c])"
        using j t(2) by (auto simp: c_def)
    qed
    show ?thesis
    proof (cases p)
      case None
      with rec s1 ok1 show ?thesis by (auto simp: suggest_None)
    next
      case (Some n')
      have wf': "wf_node n'"
        using ch Some wf_child [OF Cons.prems(1), of "nat (getIndex c)" n'] by (auto simp: child_def split: if_splits)
      have inv': "\<forall>w. in_dict n' w \<longrightarrow> in_dict h ((curSug @ [c]) @ w)"
        using in_dict_child_index [OF Cons.prems(1) ch [unfolded Some]] Cons.prems(2) by simp
      have "curSug @ [c] = map tolower (take (Suc j) word)"
        using Cons.prems(3) j by (simp add: c_def take_Suc_conv_app_nth)
      from Cons.IH [OF wf' inv' this j(3) rec [unfolded Some cs1]] obtain new2 where
        "sugs' = sugs1 @ new2" "\<forall>x \<in> set new2. in_dict h x \<and>
          (\<exists>i c. i < length word \<and> c \<noteq> tolower (word ! i) \<and> x = (map tolower word)[i := c])"
        by blast
      with s1 ok1 show ?thesis by (intro exI [of _ "new1 @ new2"]) auto
    qed
  qed
qed

lemma child_valid:
  "wf_node n \<Longrightarrow> valid x \<Longrightarrow> child n (getIndex (tolower x)) = Some (children n ! nat (getIndex (tolower x)))"
  using getIndex_valid [of "tolower x"] by (simp add: child_def valid_def)

lemma child_valid_wf:
  "wf_node n \<Longrightarrow> valid x \<Longrightarrow> children n ! nat (getIndex (tolower x)) = Some t \<Longrightarrow> wf_node t"
  using getIndex_valid [of "tolower x"] wf_child [of n "nat (getIndex (tolower x))" t] by (auto simp: valid_def nat_less_iff)

lemma follow_total:
  "wf_node t \<Longrightarrow> \<forall>x \<in> set rest. valid x \<Longrightarrow> follow (Some t) sug rest \<noteq> None"
proof (induction rest arbitrary: t sug)
  case (Cons x xs)
  then show ?case
    by (cases "children t ! nat (getIndex (tolower x))")
       (auto simp: child_valid Let_def child_valid_wf, cases xs, auto)
qed simp

lemma scan_total:
  "(\<forall>t. Some t \<in> set ps \<longrightarrow> wf_node t) \<Longrightarrow> \<forall>x \<in> set rest. valid x \<Longrightarrow>
     scan j c rest curSug ps s sugs \<noteq> None"
proof (induction ps arbitrary: curSug s sugs)
  case (Cons p ps)
  show ?case
  proof (cases p)
    case (Some t)
    with Cons.prems have "follow (Some t) (curSug @ [val t]) rest \<noteq> None"
      by (intro follow_total) auto
    with Some Cons show ?thesis by (auto split: option.splits simp: Let_def)
  qed (use Cons in auto)
qed simp

lemma suggest_total:
  "wf_node n \<Longrightarrow> \<forall>x \<in> set xs. valid x \<Longrightarrow> suggest maxS xs j s (Some n) curSug sugs \<noteq> None"
proof (induction xs arbitrary: n j s curSug sugs)
  case (Cons x xs)
  have sc: "scan j (tolower x) xs curSug (children n) s sugs \<noteq> None"
    using scan_total wf_child_set [OF Cons.prems(1)] Cons.prems(2) by simp
  show ?case
  proof (cases "s < maxS")
    case True
    from sc obtain cs1 s1 sugs1 where sc1: "scan j (tolower x) xs curSug (children n) s sugs = Some (cs1, s1, sugs1)"
      by auto
    show ?thesis
    proof (cases "children n ! nat (getIndex (tolower x))")
      case None
      with True sc1 Cons.prems show ?thesis by (simp add: child_valid suggest_None)
    next
      case (Some t)
      with Cons.prems child_valid_wf [of n x t] have "wf_node t" by simp
      with Cons.IH [OF this] True sc1 Some Cons.prems show ?thesis by (simp add: child_valid)
    qed
  qed simp
qed simp

section \<open>The reference tokenizer finds the maximal runs\<close>

lemma is_run_shift:
  assumes "a \<noteq> 0 \<or> pre = [] \<or> \<not> valid (last pre)"
  shows "is_run (pre @ rest) (length pre + a) (length pre + b) \<longleftrightarrow> is_run rest a b"
proof -
  have l: "(pre @ rest) ! (length pre + k) = rest ! k" for k by (simp add: nth_append)
  have b: "a = 0 \<Longrightarrow> (length pre + a = 0 \<or> \<not> valid ((pre @ rest) ! (length pre + a - 1)))"
    using assms by (cases pre rule: rev_cases) (auto simp: nth_append)
  have q: "(\<forall>k \<in> {length pre + a..length pre + b}. valid ((pre @ rest) ! k)) \<longleftrightarrow> (\<forall>k \<in> {a..b}. valid (rest ! k))"
  proof
    assume A: "\<forall>k \<in> {length pre + a..length pre + b}. valid ((pre @ rest) ! k)"
    show "\<forall>k \<in> {a..b}. valid (rest ! k)"
    proof
      fix k assume "k \<in> {a..b}"
      then have "length pre + k \<in> {length pre + a..length pre + b}" by simp
      with A have "valid ((pre @ rest) ! (length pre + k))" by blast
      then show "valid (rest ! k)" using l by simp
    qed
  next
    assume r: "\<forall>k \<in> {a..b}. valid (rest ! k)"
    show "\<forall>k \<in> {length pre + a..length pre + b}. valid ((pre @ rest) ! k)"
    proof
      fix k assume "k \<in> {length pre + a..length pre + b}"
      then have "k = length pre + (k - length pre)" "k - length pre \<in> {a..b}" by auto
      with r l show "valid ((pre @ rest) ! k)" by metis
    qed
  qed
  have "a \<noteq> 0 \<Longrightarrow> (pre @ rest) ! (length pre + a - 1) = rest ! (a - 1)"
    using l [of "a - 1"] by simp
  with b q l [of "Suc b"] show ?thesis
    by (cases "a = 0") (auto simp: is_run_def)
qed

lemma is_run_valid: "is_run xs s e \<Longrightarrow> k \<in> {s..e} \<Longrightarrow> valid (xs ! k)"
  by (simp add: is_run_def)

lemma is_run_invalid_prefix:
  assumes "\<forall>c \<in> set us. \<not> valid c" "is_run (us @ ys) s e"
  shows "length us \<le> s"
proof (rule ccontr)
  assume "\<not> length us \<le> s"
  then have "(us @ ys) ! s = us ! s" "us ! s \<in> set us" by (simp_all add: nth_append)
  with assms is_run_valid [OF assms(2), of s] show False by (simp add: is_run_def)
qed

lemma is_run_after_run:
  assumes vs: "vs \<noteq> []" "\<forall>c \<in> set vs. valid c" and zs: "zs = [] \<or> \<not> valid (hd zs)"
  shows "is_run (vs @ zs) a b \<longleftrightarrow>
    (a = 0 \<and> b = length vs - 1) \<or> (\<exists>a' b'. a = length vs + a' \<and> b = length vs + b' \<and> is_run zs a' b')"
proof
  assume r: "is_run (vs @ zs) a b"
  show "(a = 0 \<and> b = length vs - 1) \<or> (\<exists>a' b'. a = length vs + a' \<and> b = length vs + b' \<and> is_run zs a' b')"
  proof (cases "a < length vs")
    case True
    have "a = 0"
    proof (rule ccontr)
      assume "a \<noteq> 0"
      with True have "valid ((vs @ zs) ! (a - 1))" using vs by (simp add: nth_append)
      with r \<open>a \<noteq> 0\<close> show False by (simp add: is_run_def)
    qed
    moreover have "b = length vs - 1"
    proof (rule ccontr)
      assume ne: "b \<noteq> length vs - 1"
      show False
      proof (cases "b < length vs")
        case True
        with ne have "Suc b < length vs" by simp
        then have "valid ((vs @ zs) ! Suc b)" "Suc b < length (vs @ zs)" using vs by (simp_all add: nth_append)
        with r show False by (simp add: is_run_def)
      next
        case False
        with r have "length vs \<in> {a..b}" "length vs < length (vs @ zs)" using True by (auto simp: is_run_def)
        then have "zs \<noteq> []" "valid ((vs @ zs) ! length vs)" using is_run_valid [OF r] by auto
        with zs show False by (simp add: nth_append hd_conv_nth)
      qed
    qed
    ultimately show ?thesis by simp
  next
    case False
    then obtain a' where a': "a = length vs + a'" by (metis le_add_diff_inverse not_less)
    from r a' obtain b' where b': "b = length vs + b'" by (metis is_run_def le_add_diff_inverse le_trans le_add1)
    have "a' \<noteq> 0"
    proof
      assume "a' = 0"
      with r a' have "valid ((vs @ zs) ! length vs)" "length vs < length (vs @ zs)"
        using is_run_valid [OF r, of a] by (auto simp: is_run_def)
      with zs show False by (auto simp: nth_append hd_conv_nth)
    qed
    with r a' b' is_run_shift [of a' vs zs b'] show ?thesis by auto
  qed
next
  assume "(a = 0 \<and> b = length vs - 1) \<or> (\<exists>a' b'. a = length vs + a' \<and> b = length vs + b' \<and> is_run zs a' b')"
  then show "is_run (vs @ zs) a b"
  proof
    assume ab: "a = 0 \<and> b = length vs - 1"
    have "0 < length vs" using vs by simp
    have "\<forall>k \<in> {a..b}. valid ((vs @ zs) ! k)"
    proof
      fix k assume "k \<in> {a..b}"
      with ab have "k \<le> length vs - 1" by simp
      with \<open>0 < length vs\<close> have "k < length vs" by arith
      then show "valid ((vs @ zs) ! k)" using vs by (simp add: nth_append)
    qed
    moreover have "Suc b = length (vs @ zs) \<or> \<not> valid ((vs @ zs) ! Suc b)"
      using ab vs zs by (auto simp: nth_append hd_conv_nth)
    moreover have "length vs - 1 < length (vs @ zs)" using vs(1) by (cases vs) simp_all
    ultimately show ?thesis using ab vs by (simp add: is_run_def)
  next
    assume "\<exists>a' b'. a = length vs + a' \<and> b = length vs + b' \<and> is_run zs a' b'"
    then obtain a' b' where ab: "a = length vs + a'" "b = length vs + b'" "is_run zs a' b'" by blast
    have "a' \<noteq> 0"
    proof
      assume "a' = 0"
      with ab(3) have "valid (zs ! 0)" "zs \<noteq> []" using is_run_valid [OF ab(3), of 0] by (auto simp: is_run_def)
      with zs show False by (simp add: hd_conv_nth)
    qed
    with ab is_run_shift [of a' vs zs b'] show ?thesis by simp
  qed
qed

lemma runs_from_split:
  obtains us vs zs where "xs = us @ vs @ zs" "\<forall>c \<in> set us. \<not> valid c" "\<forall>c \<in> set vs. valid c"
    "vs = [] \<longrightarrow> zs = []" "zs = [] \<or> \<not> valid (hd zs)"
    "runs_from xs i = (if vs = [] then [] else
       (i + length us, i + length us + length vs - 1) # runs_from zs (i + length us + length vs))"
proof -
  define us where "us = takeWhile (\<lambda>c. \<not> valid c) xs"
  define ys where "ys = drop (length us) xs"
  define vs where "vs = takeWhile valid ys"
  define zs where "zs = drop (length vs) ys"
  have "us @ ys = xs" unfolding us_def ys_def by (metis append_take_drop_id takeWhile_eq_take)
  moreover have "vs @ zs = ys" unfolding vs_def zs_def by (metis append_take_drop_id takeWhile_eq_take)
  ultimately have xs: "xs = us @ vs @ zs" by simp
  have us: "\<forall>c \<in> set us. \<not> valid c" and vs: "\<forall>c \<in> set vs. valid c"
    by (auto simp: us_def vs_def dest: set_takeWhileD)
  have ys_dw: "ys = dropWhile (\<lambda>c. \<not> valid c) xs" by (simp add: ys_def us_def dropWhile_eq_drop)
  have zs_dw: "zs = dropWhile valid ys" by (simp add: zs_def vs_def dropWhile_eq_drop)
  have e: "vs = [] \<longrightarrow> zs = []"
  proof
    assume "vs = []"
    have "ys = []"
    proof (rule ccontr)
      assume "ys \<noteq> []"
      then have "valid (hd ys)" using hd_dropWhile [of "\<lambda>c. \<not> valid c" xs] ys_dw by simp
      then have "vs \<noteq> []" using \<open>ys \<noteq> []\<close> by (cases ys) (simp_all add: vs_def)
      with \<open>vs = []\<close> show False by simp
    qed
    then show "zs = []" by (simp add: zs_def)
  qed
  have z: "zs = [] \<or> \<not> valid (hd zs)" using hd_dropWhile [of valid ys] zs_dw by (cases zs) auto
  have "runs_from xs i = (if vs = [] then [] else
       (i + length us, i + length us + length vs - 1) # runs_from zs (i + length us + length vs))"
    by (simp add: Let_def us_def ys_def vs_def zs_def del: runs_from.simps) (simp add: Let_def)
  from that [OF xs us vs e z this] show ?thesis .
qed

lemma runs_from_runs:
  "(s, e) \<in> set (runs_from xs i) \<longleftrightarrow> i \<le> s \<and> i \<le> e \<and> is_run xs (s - i) (e - i)"
proof (induction "length xs" arbitrary: xs i s e rule: less_induct)
  case less
  obtain us vs zs where xs: "xs = us @ vs @ zs" and us: "\<forall>c \<in> set us. \<not> valid c"
    and vs: "\<forall>c \<in> set vs. valid c" and e0: "vs = [] \<longrightarrow> zs = []" and z: "zs = [] \<or> \<not> valid (hd zs)"
    and rf: "runs_from xs i = (if vs = [] then [] else
       (i + length us, i + length us + length vs - 1) # runs_from zs (i + length us + length vs))"
    by (rule runs_from_split [where xs = xs and i = i])
  have pre: "is_run xs a b \<longleftrightarrow> (\<exists>a' b'. a = length us + a' \<and> b = length us + b' \<and> is_run (vs @ zs) a' b')" for a b
  proof
    assume r: "is_run xs a b"
    from is_run_invalid_prefix [OF us, of "vs @ zs" a b] r xs have "length us \<le> a" by simp
    moreover from r have "a \<le> b" by (simp add: is_run_def)
    ultimately have "length us \<le> a" "a \<le> b" by simp_all
    then obtain a' b' where ab: "a = length us + a'" "b = length us + b'"
      by (metis le_add_diff_inverse le_trans)
    have "us = [] \<or> \<not> valid (last us)" using us by (cases us rule: rev_cases) auto
    with r ab xs is_run_shift [of a' us "vs @ zs" b'] show "\<exists>a' b'. a = length us + a' \<and> b = length us + b' \<and> is_run (vs @ zs) a' b'"
      by auto
  next
    assume "\<exists>a' b'. a = length us + a' \<and> b = length us + b' \<and> is_run (vs @ zs) a' b'"
    moreover have "us = [] \<or> \<not> valid (last us)" using us by (cases us rule: rev_cases) auto
    ultimately show "is_run xs a b" using xs is_run_shift [of _ us "vs @ zs"] by auto
  qed
  show ?case
  proof (cases "vs = []")
    case True
    with e0 have "vs @ zs = []" by simp
    then have "\<not> is_run (vs @ zs) a b" for a b by (simp add: is_run_def)
    with pre True rf show ?thesis by simp
  next
    case False
    define j where "j = i + length us + length vs"
    have lt: "length zs < length xs" using xs False by simp
    have ih: "(s, e) \<in> set (runs_from zs j) \<longleftrightarrow> j \<le> s \<and> j \<le> e \<and> is_run zs (s - j) (e - j)"
      using less.hyps [OF lt] .
    have L: "0 < length vs" using False by simp
    have "(s, e) \<in> set (runs_from xs i) \<longleftrightarrow>
        (s = i + length us \<and> e = i + length us + length vs - 1) \<or> (j \<le> s \<and> j \<le> e \<and> is_run zs (s - j) (e - j))"
      using False unfolding rf j_def [symmetric] by (simp add: ih del: runs_from.simps)
    also have "\<dots> \<longleftrightarrow> i \<le> s \<and> i \<le> e \<and> is_run xs (s - i) (e - i)"
    proof
      assume "(s = i + length us \<and> e = i + length us + length vs - 1) \<or> (j \<le> s \<and> j \<le> e \<and> is_run zs (s - j) (e - j))"
      then show "i \<le> s \<and> i \<le> e \<and> is_run xs (s - i) (e - i)"
      proof
        assume se: "s = i + length us \<and> e = i + length us + length vs - 1"
        have "s - i = length us + 0" using se by simp
        moreover have "e - i = length us + (length vs - 1)" using se L by arith
        moreover have "i \<le> s" "i \<le> e" using se L by arith+
        ultimately show ?thesis unfolding pre is_run_after_run [OF False vs z] by blast
      next
        assume se: "j \<le> s \<and> j \<le> e \<and> is_run zs (s - j) (e - j)"
        then have "s - i = length us + (length vs + (s - j))" "e - i = length us + (length vs + (e - j))"
          "i \<le> s" "i \<le> e"
          by (simp_all add: j_def)
        with se show ?thesis unfolding pre is_run_after_run [OF False vs z] by blast
      qed
    next
      assume "i \<le> s \<and> i \<le> e \<and> is_run xs (s - i) (e - i)"
      then obtain a' b' where ab: "i \<le> s" "i \<le> e" "s - i = length us + a'" "e - i = length us + b'"
        "(a' = 0 \<and> b' = length vs - 1) \<or> (\<exists>a'' b''. a' = length vs + a'' \<and> b' = length vs + b'' \<and> is_run zs a'' b'')"
        unfolding pre is_run_after_run [OF False vs z] by blast
      from ab(5) show "(s = i + length us \<and> e = i + length us + length vs - 1) \<or> (j \<le> s \<and> j \<le> e \<and> is_run zs (s - j) (e - j))"
      proof
        assume "a' = 0 \<and> b' = length vs - 1"
        with ab L have "s = i + length us" "e = i + length us + length vs - 1" by arith+
        then show ?thesis by simp
      next
        assume "\<exists>a'' b''. a' = length vs + a'' \<and> b' = length vs + b'' \<and> is_run zs a'' b''"
        then obtain a'' b'' where r: "a' = length vs + a''" "b' = length vs + b''" "is_run zs a'' b''" by blast
        with ab have "s - j = a''" "e - j = b''" "j \<le> s" "j \<le> e" by (simp_all add: j_def)
        with r show ?thesis by simp
      qed
    qed
    finally show ?thesis .
  qed
qed

lemma runs_from_ge: "(s, e) \<in> set (runs_from xs i) \<Longrightarrow> i \<le> s \<and> s \<le> e"
  unfolding runs_from_runs is_run_def by arith

lemma runs_from_sorted: "sorted_wrt (\<lambda>a b. snd a < fst b) (runs_from xs i)"
proof (induction "length xs" arbitrary: xs i rule: less_induct)
  case less
  obtain us vs zs where xs: "xs = us @ vs @ zs" and "\<forall>c \<in> set us. \<not> valid c"
    and "\<forall>c \<in> set vs. valid c" and "vs = [] \<longrightarrow> zs = []" and "zs = [] \<or> \<not> valid (hd zs)"
    and rf: "runs_from xs i = (if vs = [] then [] else
       (i + length us, i + length us + length vs - 1) # runs_from zs (i + length us + length vs))"
    by (rule runs_from_split [where xs = xs and i = i])
  show ?case
  proof (cases "vs = []")
    case False
    have lt: "length zs < length xs" using xs False by simp
    have "\<forall>p \<in> set (runs_from zs (i + length us + length vs)). i + length us + length vs - 1 < fst p"
    proof
      fix p assume "p \<in> set (runs_from zs (i + length us + length vs))"
      with runs_from_ge [of "fst p" "snd p"] have "i + length us + length vs \<le> fst p" by simp
      with False show "i + length us + length vs - 1 < fst p" by (cases vs) simp_all
    qed
    with less.hyps [OF lt] False show ?thesis unfolding rf by (simp del: runs_from.simps)
  qed (simp add: rf del: runs_from.simps)
qed

section \<open>How many suggestions\<close>

text \<open>The loop over the children adds at most one suggestion per child whose
  character differs from the word's, that is at most 26, and the bound
  \<^verbatim>\<open>s < max_suggestions\<close> is only tested before that loop.\<close>

lemma scan_count:
  "scan j c rest curSug ps s sugs = Some (cs', s', sugs') \<Longrightarrow>
     \<exists>new. sugs' = sugs @ new \<and> s' = s + int (length new) \<and>
       length new \<le> length (filter (\<lambda>p. p \<noteq> None \<and> val (the p) \<noteq> c) ps)"
proof (induction ps arbitrary: curSug s sugs)
  case Nil
  then show ?case by simp
next
  case (Cons p ps)
  show ?case
  proof (cases "p \<noteq> None \<and> val (the p) \<noteq> c")
    case False
    with Cons.prems have "scan j c rest curSug ps s sugs = Some (cs', s', sugs')"
      by (cases p) auto
    with Cons.IH False show ?thesis by fastforce
  next
    case True
    then obtain t where t: "p = Some t" "val t \<noteq> c" by auto
    with Cons.prems obtain sug temp where
      sc: "scan j c rest (take j sug) ps
             (if (case temp of None \<Rightarrow> False | Some n \<Rightarrow> is_end n) then s + 1 else s)
             (if (case temp of None \<Rightarrow> False | Some n \<Rightarrow> is_end n) then sugs @ [sug] else sugs) =
           Some (cs', s', sugs')"
      by (auto split: option.splits simp: Let_def)
    from Cons.IH [OF sc] obtain new where nw:
      "sugs' = (if (case temp of None \<Rightarrow> False | Some n \<Rightarrow> is_end n) then sugs @ [sug] else sugs) @ new"
      "s' = (if (case temp of None \<Rightarrow> False | Some n \<Rightarrow> is_end n) then s + 1 else s) + int (length new)"
      "length new \<le> length (filter (\<lambda>p. p \<noteq> None \<and> val (the p) \<noteq> c) ps)"
      by blast
    show ?thesis
    proof (cases "case temp of None \<Rightarrow> False | Some n \<Rightarrow> is_end n")
      case True
      with t nw show ?thesis by (intro exI [of _ "sug # new"]) simp
    next
      case False
      with t nw show ?thesis by (intro exI [of _ new]) simp
    qed
  qed
qed

lemma children_count:
  assumes "wf_node n" "getIndex c \<noteq> -1"
  shows "length (filter (\<lambda>p. p \<noteq> None \<and> val (the p) \<noteq> c) (children n)) \<le> 26"
proof -
  define k where "k = nat (getIndex c)"
  from getIndex_valid [OF assms(2)] have k: "k < 27" "letter k = c" by (auto simp: k_def)
  have len: "length (children n) = 27" using wf_node_children [OF assms(1)] by simp
  have "\<not> (children n ! k \<noteq> None \<and> val (the (children n ! k)) \<noteq> c)"
    using wf_child [OF assms(1) k(1)] k(2) by (cases "children n ! k") auto
  moreover have "children n ! k \<in> set (children n)" using k(1) len by simp
  ultimately have "length (filter (\<lambda>p. p \<noteq> None \<and> val (the p) \<noteq> c) (children n)) < length (children n)"
    by (rule_tac length_filter_less) auto
  with len show ?thesis by simp
qed

lemma suggest_count:
  "wf_node n \<Longrightarrow> s = int (length sugs) \<Longrightarrow> suggest maxS xs j s (Some n) curSug sugs = Some sugs' \<Longrightarrow>
     int (length sugs') \<le> max (int (length sugs)) (maxS + 25)"
proof (induction xs arbitrary: n j s curSug sugs)
  case Nil
  then show ?case by simp
next
  case (Cons x xs)
  define c where "c = tolower x"
  show ?case
  proof (cases "s < maxS")
    case False
    with Cons.prems show ?thesis by simp
  next
    case True
    with Cons.prems(3) obtain cs1 s1 sugs1 p where
      sc: "scan j c xs curSug (children n) s sugs = Some (cs1, s1, sugs1)" and
      ch: "child n (getIndex c) = Some p" and
      rec: "suggest maxS xs (Suc j) s1 p (cs1 @ [c]) sugs1 = Some sugs'"
      by (auto simp: c_def Let_def split: option.splits)
    from ch have v: "getIndex c \<noteq> -1" by (auto simp: child_def split: if_splits)
    from scan_count [OF sc] children_count [OF Cons.prems(1) v] obtain new where
      s1: "sugs1 = sugs @ new" "s1 = s + int (length new)" "length new \<le> 26" by fastforce
    with True Cons.prems(2) have b1: "int (length sugs1) \<le> maxS + 25" "s1 = int (length sugs1)" by auto
    show ?thesis
    proof (cases p)
      case None
      with rec b1 show ?thesis by (simp add: suggest_None)
    next
      case (Some n')
      have "wf_node n'"
        using ch Some wf_child [OF Cons.prems(1), of "nat (getIndex c)" n'] by (auto simp: child_def split: if_splits)
      from Cons.IH [OF this b1(2) rec [unfolded Some]] b1(1) show ?thesis by simp
    qed
  qed
qed

section \<open>When a lookup reads outside the child array\<close>

lemma has_path_Cons_wf:
  assumes "wf_node n"
  shows "has_path n (x # w) \<longleftrightarrow>
    getIndex x \<noteq> -1 \<and> (\<exists>t. children n ! nat (getIndex x) = Some t \<and> has_path t w)"
proof
  assume "has_path n (x # w)"
  then obtain l t where "x = letter l" "l < length (children n)" "children n ! l = Some t" "has_path t w"
    by (auto simp: has_path_Cons)
  with wf_node_children [OF assms] show "getIndex x \<noteq> -1 \<and> (\<exists>t. children n ! nat (getIndex x) = Some t \<and> has_path t w)"
    by (auto simp: getIndex_letter)
next
  assume "getIndex x \<noteq> -1 \<and> (\<exists>t. children n ! nat (getIndex x) = Some t \<and> has_path t w)"
  with getIndex_valid [of x] wf_node_children [OF assms] show "has_path n (x # w)"
    by (auto simp: has_path_Cons intro!: exI [of _ "nat (getIndex x)"])
qed

lemma child_invalid: "\<not> valid x \<Longrightarrow> child n (getIndex (tolower x)) = None"
  by (simp add: valid_def child_def)

lemma checkWord_None_iff:
  "wf_node n \<Longrightarrow> checkWord n w = None \<longleftrightarrow>
     (\<exists>p x rest. w = p @ x # rest \<and> (\<forall>y \<in> set p. valid y) \<and> \<not> valid x \<and> has_path n (map tolower p))"
proof (induction w arbitrary: n)
  case Nil
  then show ?case by (simp add: checkWord_def)
next
  case (Cons x xs)
  show ?case
  proof (cases "valid x")
    case False
    then have "checkWord n (x # xs) = None" by (simp add: checkWord_def child_invalid)
    moreover have "\<exists>p y rest. x # xs = p @ y # rest \<and> (\<forall>z \<in> set p. valid z) \<and> \<not> valid y \<and> has_path n (map tolower p)"
      using False by (intro exI [of _ "[]"] exI [of _ x] exI [of _ xs]) (simp add: path_nil)
    ultimately show ?thesis by simp
  next
    case True
    define i where "i = getIndex (tolower x)"
    have i: "0 \<le> i" "i < 27" "i \<noteq> -1" using True getIndex_valid [of "tolower x"] by (auto simp: valid_def i_def)
    have ch: "child n i = Some (children n ! nat i)" using i by (simp add: child_def)
    have split: "(\<exists>p y rest. x # xs = p @ y # rest \<and> (\<forall>z \<in> set p. valid z) \<and> \<not> valid y \<and> has_path n (map tolower p)) \<longleftrightarrow>
        (\<exists>p y rest. xs = p @ y # rest \<and> (\<forall>z \<in> set p. valid z) \<and> \<not> valid y \<and> has_path n (tolower x # map tolower p))"
      (is "?L \<longleftrightarrow> ?R")
    proof
      assume ?L
      then obtain p y rest where "x # xs = p @ y # rest" "\<forall>z \<in> set p. valid z" "\<not> valid y" "has_path n (map tolower p)"
        by blast
      with True show ?R by (cases p) auto
    next
      assume ?R
      then obtain p y rest where "xs = p @ y # rest" "\<forall>z \<in> set p. valid z" "\<not> valid y" "has_path n (tolower x # map tolower p)"
        by blast
      with True show ?L by (intro exI [of _ "x # p"] exI [of _ y] exI [of _ rest]) simp
    qed
    show ?thesis
    proof (cases "children n ! nat i")
      case None
      then have "checkWord n (x # xs) = Some False"
        using ch by (simp add: checkWord_def i_def [symmetric] check_loop_None)
      moreover have "\<not> has_path n (tolower x # w)" for w
        using None i by (simp add: has_path_Cons_wf [OF Cons.prems] i_def)
      ultimately show ?thesis unfolding split by simp
    next
      case (Some t)
      have wt: "wf_node t" using wf_child [OF Cons.prems, of "nat i" t] Some i by simp
      have "checkWord n (x # xs) = checkWord t xs"
        using ch Some by (simp add: checkWord_def i_def [symmetric])
      moreover have "has_path n (tolower x # w) \<longleftrightarrow> has_path t w" for w
        using Some i by (simp add: has_path_Cons_wf [OF Cons.prems] i_def)
      ultimately show ?thesis unfolding split using Cons.IH [OF wt] by simp
    qed
  qed
qed

end
