(* ===== verification/Spec2Isabelle.thy ===== *)
theory Spec2Isabelle
  imports Session SpellCheck
begin

text \<open>
  \<^bold>\<open>A verification development for the Wurd text editor\<close> (\<^verbatim>\<open>src/Wurd\<close>).

  \<^bold>\<open>The program.\<close> Wurd keeps a text as a list of lines with a cursor
  (\<^verbatim>\<open>StudentTextEditor.cpp\<close>) and records every edit in an undo log
  (\<^verbatim>\<open>StudentUndo.cpp\<close>). Each mutating editor operation except \<^verbatim>\<open>undo\<close>
  pushes one primitive record (\<^verbatim>\<open>submit\<close>); \<^verbatim>\<open>undo\<close> asks the log for one
  inverse action (\<^verbatim>\<open>get\<close>), which pops the top record together with the records
  below it that continue the same run of typing or deleting, and applies it to the
  lines without logging. \<^verbatim>\<open>load\<close> and \<^verbatim>\<open>reset\<close> clear the log
  (\<^verbatim>\<open>clear\<close>). A third part, the spell checker (\<^verbatim>\<open>StudentSpellCheck.cpp\<close>,
  a trie of dictionary words), does not interact with the other two.

  \<^bold>\<open>The theories.\<close>
  \<^item> \<open>Wurd_Prelude\<close>: lines and buffers, the standard-library string operations the
    code calls (\<^verbatim>\<open>insert\<close>, \<^verbatim>\<open>erase\<close>, \<^verbatim>\<open>substr\<close> with
    \<^verbatim>\<open>out_of_range\<close> as \<open>None\<close>, \<^verbatim>\<open>std::list::insert\<close>), line split and
    join, and the list lemmas the components share (collection \<open>line_simps\<close>).
  \<^item> \<open>Undo\<close>: \<^verbatim>\<open>StudentUndo\<close>. The stack is a list, top first, of
    \<open>actdata\<close> records (\<^verbatim>\<open>ActData\<close>); \<open>submit\<close>, \<open>clear\<close> and \<open>get\<close>
    are the three member functions, the two batching \<^verbatim>\<open>while\<close> loops of
    \<^verbatim>\<open>get\<close> are \<open>batch_delete\<close> (the character list with its insertion
    iterator as a list and an index) and \<open>batch_insert\<close>. The reference
    parameters of \<^verbatim>\<open>get\<close> are the record \<open>get_out\<close>, passed in and returned.
  \<^item> \<open>Editor\<close>: \<^verbatim>\<open>StudentTextEditor\<close>. The state is the record \<open>editor\<close>
    (\<^verbatim>\<open>m_lines\<close>, \<^verbatim>\<open>m_r\<close>, \<^verbatim>\<open>m_c\<close> and the undo stack; the iterator
    \<^verbatim>\<open>m_it\<close> always designates row \<^verbatim>\<open>m_r\<close> and is that index). One
    definition per member function: \<open>new_editor\<close> (constructor), \<open>reset\<close>,
    \<open>move\<close>, \<open>del\<close>, \<open>backspace\<close>, \<open>insert_ed\<close> (with \<open>insert_one\<close> its
    non-tab branch), \<open>enter\<close>, \<open>getPos\<close>, \<open>getLines\<close>, \<open>undo\<close> (with
    \<open>undo_apply\<close> the part after \<^verbatim>\<open>get\<close>). The invariant \<open>cursor_ok\<close>
    (row inside the buffer, column at most the line length) is kept by every
    operation (collection \<open>cursor_inv\<close>).
  \<^item> \<open>Editor_IO\<close>: \<^verbatim>\<open>load\<close> and \<^verbatim>\<open>save\<close> against a file system given as a
    map from paths to contents; \<open>getlines\<close> is the \<^verbatim>\<open>std::getline\<close> loop.
  \<^item> \<open>History\<close>: the meaning of a log record (\<open>redo_at\<close>, \<open>redo\<close>) and of a
    log (\<open>replay\<close>: the records run from the bottom over the buffer of the last
    load); \<open>explains L0 e\<close> says the log of \<open>e\<close> replayed over \<open>L0\<close> gives
    the buffer of \<open>e\<close>. Every edit keeps its log explaining its buffer
    (collection \<open>explains_inv\<close>), and the two loop lemmas
    \<open>batch_delete_replay\<close>, \<open>batch_insert_replay\<close> show that the text and the
    count \<^verbatim>\<open>get\<close> computes are exactly what the popped run removed or typed;
    \<open>undo_explained\<close> puts them together.
  \<^item> \<open>Undo_Runs\<close>: runs of one kind of edit (\<open>fold insert_ed\<close>,
    \<open>del ^^ n\<close>, \<open>backspace ^^ n\<close>) and single structural edits, each followed
    by one \<open>undo\<close>; the predicates \<open>typing_joins\<close> and \<open>deleting_joins\<close> say
    when the record on top of the log before the run would be batched with it.
  \<^item> \<open>Session\<close>: call sequences as a command datatype \<open>cmd\<close>, its \<open>step\<close>
    function and \<open>run\<close>, the reachable states (\<open>reachable\<close>, an inductive
    predicate) and their invariant \<open>session_inv\<close> by rule induction.
  \<^item> \<open>SpellCheck\<close>: \<^verbatim>\<open>StudentSpellCheck\<close>. The trie is the datatype
    \<open>node\<close> (character, end flag, 27 child pointers as \<open>node option\<close>); one
    definition per member function and per loop: \<open>getIndex\<close>, \<open>checkWord\<close>
    (\<open>check_loop\<close>), \<open>load_dict\<close> (\<open>ins_loop\<close> for one line),
    \<open>spellCheck\<close> (\<open>suggest\<close>, \<open>scan\<close>, \<open>follow\<close> for the loops over
    \<^verbatim>\<open>j\<close>, \<^verbatim>\<open>l\<close>, \<^verbatim>\<open>k\<close>) and \<open>spellCheckLine\<close> (\<open>line_loop\<close>,
    \<open>close_word\<close>). The abstract dictionary is the inductive \<open>in_dict\<close> and
    the paths of a trie the inductive \<open>has_path\<close>; the shape invariant is
    \<open>wf_node\<close>; \<open>is_run\<close> says what a maximal run of letters is, and
    \<open>runs_from\<close> and \<open>bad_runs\<close> are a reference tokenizer, proved to find
    exactly those runs, that \<^verbatim>\<open>spellCheckLine\<close> is shown equal to. The
    suggestion loops are bounded by counting the children tried at one position.
  \<^item> This theory: the properties of the program as a whole (the claims below).

  \<^bold>\<open>What is shown.\<close> \<^emph>\<open>Refinement\<close>: on any log that explains the buffer,
  \<open>undo\<close> succeeds, pops at least one record and returns the buffer that the
  remaining log explains, that is, an earlier version of the text (C1); so undo
  never throws in a reachable state (C3), and as many undos as there are records
  give back the text of the last load (C4). \<^emph>\<open>Invariant\<close>: every reachable state
  has its cursor inside the buffer and a log explaining it (C2). \<^emph>\<open>One undo
  after one run\<close>: \<open>enter\<close> (C5), a typing run (C6), a forward-delete run (C7)
  and a backspace-join (C9) are undone exactly; after a backspace run (C8) and a
  forward-delete join (C10) the lines and the log come back but the cursor does
  not, where the spec says it does. Every edit is a no-op at an edge of the buffer
  or logs exactly one record (C25). \<^emph>\<open>Load and save\<close>: save then load is the
  identity on buffers whose lines hold no newline and do not end in a carriage
  return (C11); a failed load changes nothing (C12); after a typed newline the
  file comes back with more lines than the buffer had (C13). \<^emph>\<open>The log\<close>:
  \<open>get\<close> pops a non-empty prefix of a non-empty stack and accounts for every
  popped record (C14), and reports \<open>ERROR\<close> exactly on an empty log or an
  \<open>ERROR\<close> record (C15). \<^emph>\<open>Reading\<close>: the contract of \<open>getLines\<close> (C16).
  \<^emph>\<open>Spell checker\<close>: after \<open>load\<close>, a word is accepted exactly when it is a
  cleaned line of the dictionary file (C17); \<open>load\<close> adds exactly those lines
  and keeps the trie well formed (C18); \<open>checkWord\<close> refines membership in
  \<open>in_dict\<close> (C19); \<open>spellCheckLine\<close> returns, in order, exactly the maximal
  runs of letters and apostrophes that are no word (C20); every suggestion is a
  dictionary word one character away from the word (C21); \<open>spellCheck\<close> is
  total on words of letters (C22); it returns at most \<^verbatim>\<open>maxSuggestions +
  25\<close> suggestions, not \<^verbatim>\<open>maxSuggestions\<close> (C23); and a lookup reads outside
  the child array exactly when a trie path is followed by a character that is no
  letter or apostrophe (C24).

  \<^bold>\<open>Modelling choices.\<close> Rows and columns of the log are the code's
  \<^verbatim>\<open>int\<close>s; those of the editor are \<open>nat\<close> (they are never negative there)
  and a negative value coming from the log is caught where the C++ would throw.
  The editing operations index the buffer with \<open>take\<close>/\<open>drop\<close>/\<open>!\<close>, exact
  while \<open>cursor_ok\<close> holds, which is always (C2). \<open>undo\<close> returns \<open>None\<close>
  where the C++ throws \<^verbatim>\<open>out_of_range\<close> or moves the iterator out of the
  list. No loop needs fuel: both batching loops recurse on the stack, and
  repeated undo is bounded by the length of the log (C4). In the spell checker
  a read of \<^verbatim>\<open>next[-1]\<close> is \<open>None\<close> for the whole call; every loop
  there recurses on the word, the line or the child list, and the reference
  tokenizer \<open>runs_from\<close> terminates by the length of the line.

  \<^bold>\<open>Findings.\<close> Undo does not restore the cursor after a backspace run (C8)
  or a forward-delete join (C10), against the spec's examples; a typed newline
  breaks save/load (C13); \<^verbatim>\<open>spellCheck\<close> ignores its bound within one
  position (C23); lookups read outside the child array on digits and punctuation
  (C24); dictionary lines lose their other characters on load (C17).

  \<^bold>\<open>Not modelled.\<close> Memory management (\<^verbatim>\<open>new\<close>/\<^verbatim>\<open>delete\<close> of the
  undo records and trie nodes, destructors, \<^verbatim>\<open>StudentSpellCheck::clear\<close>), the
  stream layer below \<^verbatim>\<open>getline\<close> and \<^verbatim>\<open>operator<<\<close>, and the command
  surface, key bindings and rendering, which are not in \<^verbatim>\<open>src/Wurd\<close>; their
  call sequences on the editor are the commands of \<open>Session\<close>.
\<close>

section \<open>Example states\<close>

text \<open>The state after typing \<open>cat\<close> into a fresh editor, with its three
  \<^verbatim>\<open>INSERT\<close> records, and the line \<open>cat\<close> with the cursor at its end and an
  empty log; the witnesses below evaluate the theorems on them.\<close>

definition cat_typed :: editor where
  "cat_typed = \<lparr>m_lines = [''cat''], m_r = 0, m_c = 3,
     m_undo = [\<lparr>action = INSERT, row = 0, col = 3, ch = CHR ''t''\<rparr>,
               \<lparr>action = INSERT, row = 0, col = 2, ch = CHR ''a''\<rparr>,
               \<lparr>action = INSERT, row = 0, col = 1, ch = CHR ''c''\<rparr>]\<rparr>"

definition cat_line :: editor where
  "cat_line = \<lparr>m_lines = [''cat''], m_r = 0, m_c = 3, m_undo = []\<rparr>"

text \<open>The line \<open>hello\<close> with the cursor at column 2, and two lines with the
  cursor at the end of the first, each with an empty log.\<close>

definition hello_2 :: editor where
  "hello_2 = \<lparr>m_lines = [''hello''], m_r = 0, m_c = 2, m_undo = []\<rparr>"

definition two_lines :: editor where
  "two_lines = \<lparr>m_lines = [''ab'', ''cd''], m_r = 0, m_c = 2, m_undo = []\<rparr>"

text \<open>A dictionary file of three lines, the second ending in a carriage return
  and the third in upper case, and the trie \<^verbatim>\<open>load\<close> builds from it.\<close>

definition dict_file :: files where
  "dict_file = (\<lambda>f. if f = ''words.txt'' then Some (''ab'' @ NL # ''cb'' @ CR # NL # ''Db'' @ [NL]) else None)"

definition small_dict :: node where
  "small_dict = snd (load_dict dict_file ''words.txt'' (new_node (CHR 0x00)))"

section \<open>Undo refines going back in the history of the buffer\<close>

text \<open>C1. If the undo log explains the buffer from some earlier buffer \<open>L0\<close> and
  is not empty, then \<open>undo\<close> succeeds, removes at least one record from the top
  of the log, leaves a log that still explains the new buffer from \<open>L0\<close>, and
  leaves the cursor inside the buffer.\<close>

theorem undo_reverts_to_logged_version:
  assumes "explains L0 e" and "m_undo e \<noteq> []"
  shows "\<exists>e' k. undo e = Some e' \<and> 0 < k \<and> m_undo e' = drop k (m_undo e) \<and>
           replay L0 (m_undo e') = Some (m_lines e') \<and> cursor_ok e'"
  using undo_explained [OF assms] by (auto simp: explains_def)

theorem undo_reverts_to_logged_version_witness:
  "explains [[]] cat_typed \<and> m_undo cat_typed \<noteq> [] \<and>
   (\<exists>e' k. undo cat_typed = Some e' \<and> 0 < k \<and> m_undo e' = drop k (m_undo cat_typed) \<and>
      replay [[]] (m_undo e') = Some (m_lines e') \<and> cursor_ok e')"
proof -
  have h1: "explains [[]] cat_typed" by (simp add: explains_def cat_typed_def redo_def)
  have h2: "m_undo cat_typed \<noteq> []" by (simp add: cat_typed_def)
  show ?thesis using h1 h2 undo_reverts_to_logged_version [OF h1 h2] by blast
qed

section \<open>The invariant of every reachable state\<close>

text \<open>C2. In every state reachable from a fresh editor by any sequence of calls,
  the cursor is inside the buffer (a row of the buffer, a column at most the
  length of that row), and the undo log explains the buffer from some earlier
  buffer.\<close>

theorem reachable_invariant:
  "reachable e \<Longrightarrow> cursor_ok e \<and> (\<exists>L0. replay L0 (m_undo e) = Some (m_lines e))"
  using reachable_session_inv by (auto simp: session_inv_def explains_def)

theorem reachable_invariant_witness:
  "reachable (insert_ed (CHR ''a'') (new_editor [])) \<and>
   cursor_ok (insert_ed (CHR ''a'') (new_editor [])) \<and>
   (\<exists>L0. replay L0 (m_undo (insert_ed (CHR ''a'') (new_editor []))) = Some (m_lines (insert_ed (CHR ''a'') (new_editor []))))"
proof -
  have r: "reachable (insert_ed (CHR ''a'') (new_editor []))"
    by (rule reachable.step [OF reachable.init, of "Insert (CHR ''a'')"]) simp
  show ?thesis using r reachable_invariant [OF r] by blast
qed

text \<open>C3. In a reachable state \<open>undo\<close> never throws and never moves the list
  iterator out of the list: it always returns a state.\<close>

theorem undo_never_fails:
  "reachable e \<Longrightarrow> \<exists>e'. undo e = Some e'"
proof -
  assume "reachable e"
  then obtain L0 where x: "explains L0 e" using reachable_session_inv by (auto simp: session_inv_def)
  show ?thesis
  proof (cases "m_undo e = []")
    case True
    then show ?thesis by (simp add: undo_empty)
  next
    case False
    from undo_explained [OF x False] show ?thesis by blast
  qed
qed

theorem undo_never_fails_witness:
  "reachable (enter (new_editor [])) \<and> (\<exists>e'. undo (enter (new_editor [])) = Some e')"
proof -
  have r: "reachable (enter (new_editor []))"
    by (rule reachable.step [OF reachable.init, of Enter]) simp
  show ?thesis using r undo_never_fails [OF r] by blast
qed

text \<open>C4. Undoing as many times as the log has records always succeeds, leaves
  the log empty and gives back the buffer the log starts from (the text of the
  last load or reset): repeated undo terminates, and at the right place.\<close>

theorem undo_all_restores_start:
  "explains L0 e \<Longrightarrow>
     \<exists>e'. run (replicate (length (m_undo e)) Undo) e = Some e' \<and> m_undo e' = [] \<and> m_lines e' = L0"
  using run_undos by blast

theorem undo_all_restores_start_witness:
  "explains [[]] cat_typed \<and>
   (\<exists>e'. run (replicate (length (m_undo cat_typed)) Undo) cat_typed = Some e' \<and> m_undo e' = [] \<and> m_lines e' = [[]])"
proof -
  have h: "explains [[]] cat_typed" by (simp add: explains_def cat_typed_def redo_def)
  show ?thesis using h undo_all_restores_start [OF h] by blast
qed

section \<open>What one undo does after one run of edits\<close>

text \<open>C5. \<open>enter\<close> followed by \<open>undo\<close> gives back exactly the state before
  the \<open>enter\<close> (lines, cursor and log), whatever the log held before.\<close>

theorem undo_after_enter_exact:
  "cursor_ok e \<Longrightarrow> undo (enter e) = Some e"
  by (rule undo_enter)

theorem undo_after_enter_exact_witness:
  "cursor_ok hello_2 \<and> m_lines (enter hello_2) = [''he'', ''llo''] \<and> undo (enter hello_2) = Some hello_2"
proof -
  have h: "cursor_ok hello_2" by (simp add: hello_2_def cursor_ok_def)
  have "m_lines (enter hello_2) = [''he'', ''llo'']"
    by (simp add: hello_2_def enter_def split_line_def)
  then show ?thesis using h undo_after_enter_exact [OF h] by blast
qed

text \<open>C6. Typing any non-empty string (a tab counts as four spaces) and then
  calling \<open>undo\<close> once gives back exactly the state before the typing, provided
  the log's top record does not itself continue the typing run.\<close>

theorem undo_after_typing_exact:
  assumes "cursor_ok e" "w \<noteq> []" "\<not> typing_joins (m_r e) (m_c e) (m_undo e)"
  shows "undo (fold insert_ed w e) = Some e"
proof -
  have "concat (map tab_expand w) \<noteq> []"
    using assms(2) by (cases w) (simp_all add: tab_expand_def)
  with assms show ?thesis by (simp add: fold_insert_ed undo_typed)
qed

theorem undo_after_typing_exact_witness:
  "cursor_ok (new_editor []) \<and> ''cat'' \<noteq> [] \<and> \<not> typing_joins 0 0 [] \<and>
   undo (fold insert_ed ''cat'' (new_editor [])) = Some (new_editor [])"
proof -
  have h: "cursor_ok (new_editor [])" "''cat'' \<noteq> []" "\<not> typing_joins (m_r (new_editor [])) (m_c (new_editor [])) (m_undo (new_editor []))"
    by (simp_all add: cursor_ok_def new_editor_def typing_joins_def)
  show ?thesis using h undo_after_typing_exact [OF h] by (simp add: new_editor_def)
qed

text \<open>C7. A run of \<open>n\<close> forward deletes on one line followed by one \<open>undo\<close>
  gives back exactly the state before the run, provided the log's top record does
  not continue the run.\<close>

theorem undo_after_forward_deletes_exact:
  assumes "cursor_ok e" "0 < n" "n \<le> length (cur_line e) - m_c e"
    and "\<not> deleting_joins (m_r e) (m_c e) (m_undo e)"
  shows "undo ((del ^^ n) e) = Some e"
  by (rule undo_del_run [OF assms])

theorem undo_after_forward_deletes_exact_witness:
  "cursor_ok (cat_line\<lparr>m_c := 0\<rparr>) \<and> (0::nat) < 3 \<and> 3 \<le> length (cur_line (cat_line\<lparr>m_c := 0\<rparr>)) - 0 \<and>
   \<not> deleting_joins 0 0 [] \<and> m_lines ((del ^^ 3) (cat_line\<lparr>m_c := 0\<rparr>)) = [[]] \<and>
   undo ((del ^^ 3) (cat_line\<lparr>m_c := 0\<rparr>)) = Some (cat_line\<lparr>m_c := 0\<rparr>)"
proof -
  have h: "cursor_ok (cat_line\<lparr>m_c := 0\<rparr>)" "(0::nat) < 3"
    "3 \<le> length (cur_line (cat_line\<lparr>m_c := 0\<rparr>)) - m_c (cat_line\<lparr>m_c := 0\<rparr>)"
    "\<not> deleting_joins (m_r (cat_line\<lparr>m_c := 0\<rparr>)) (m_c (cat_line\<lparr>m_c := 0\<rparr>)) (m_undo (cat_line\<lparr>m_c := 0\<rparr>))"
    by (simp_all add: cat_line_def cursor_ok_def deleting_joins_def)
  have "m_lines ((del ^^ 3) (cat_line\<lparr>m_c := 0\<rparr>)) = [[]]"
    by (simp add: cat_line_def del_def numeral_eq_Suc Let_def submit_def)
  then show ?thesis using h undo_after_forward_deletes_exact [OF h] by (simp add: cat_line_def)
qed

text \<open>C8. A run of \<open>n\<close> backspaces followed by one \<open>undo\<close> gives back the
  lines and the log of the state before the run, but the cursor stays \<open>n\<close>
  columns to the left of where the run started (at the start of the reinserted
  text), provided the log's top record does not continue the run.\<close>

theorem undo_after_backspaces_cursor:
  assumes "cursor_ok e" "0 < n" "n \<le> m_c e"
    and "\<not> deleting_joins (m_r e) (m_c e - 1) (m_undo e)"
  shows "undo ((backspace ^^ n) e) = Some (e\<lparr>m_c := m_c e - n\<rparr>)"
  by (rule undo_backspace_run [OF assms])

theorem undo_after_backspaces_cursor_witness:
  "cursor_ok cat_line \<and> (0::nat) < 3 \<and> 3 \<le> m_c cat_line \<and> \<not> deleting_joins 0 2 [] \<and>
   m_lines ((backspace ^^ 3) cat_line) = [[]] \<and>
   undo ((backspace ^^ 3) cat_line) = Some (cat_line\<lparr>m_c := 0\<rparr>)"
proof -
  have h: "cursor_ok cat_line" "(0::nat) < 3" "3 \<le> m_c cat_line"
    "\<not> deleting_joins (m_r cat_line) (m_c cat_line - 1) (m_undo cat_line)"
    by (simp_all add: cat_line_def cursor_ok_def deleting_joins_def)
  have "m_lines ((backspace ^^ 3) cat_line) = [[]]"
    by (simp add: cat_line_def backspace_def numeral_eq_Suc Let_def submit_def)
  then show ?thesis using h undo_after_backspaces_cursor [OF h] by (simp add: cat_line_def)
qed

text \<open>C9. A backspace at the start of a line that joins it to the previous line,
  followed by \<open>undo\<close>, gives back exactly the state before the backspace.\<close>

theorem undo_after_backspace_join_exact:
  "cursor_ok e \<Longrightarrow> m_c e = 0 \<Longrightarrow> m_r e \<noteq> 0 \<Longrightarrow> undo (backspace e) = Some e"
  by (rule undo_backspace_join)

theorem undo_after_backspace_join_exact_witness:
  "cursor_ok (two_lines\<lparr>m_r := 1, m_c := 0\<rparr>) \<and> m_c (two_lines\<lparr>m_r := 1, m_c := 0\<rparr>) = 0 \<and>
   m_r (two_lines\<lparr>m_r := 1, m_c := 0\<rparr>) \<noteq> 0 \<and>
   undo (backspace (two_lines\<lparr>m_r := 1, m_c := 0\<rparr>)) = Some (two_lines\<lparr>m_r := 1, m_c := 0\<rparr>)"
proof -
  have h: "cursor_ok (two_lines\<lparr>m_r := 1, m_c := 0\<rparr>)" "m_c (two_lines\<lparr>m_r := 1, m_c := 0\<rparr>) = 0"
    "m_r (two_lines\<lparr>m_r := 1, m_c := 0\<rparr>) \<noteq> 0"
    by (simp_all add: two_lines_def cursor_ok_def)
  show ?thesis using h undo_after_backspace_join_exact [OF h] by blast
qed

text \<open>C10. A forward delete at the end of a line that is not the last joins the
  next line to it; the \<open>undo\<close> that follows restores the lines and the log, but
  leaves the cursor at the start of the next line, not where \<open>del\<close> was
  called.\<close>

theorem undo_after_del_join_cursor:
  "cursor_ok e \<Longrightarrow> m_c e = length (cur_line e) \<Longrightarrow> Suc (m_r e) < length (m_lines e) \<Longrightarrow>
     undo (del e) = Some (e\<lparr>m_r := Suc (m_r e), m_c := 0\<rparr>)"
  by (rule undo_del_join)

theorem undo_after_del_join_cursor_witness:
  "cursor_ok two_lines \<and> m_c two_lines = length (cur_line two_lines) \<and>
   Suc (m_r two_lines) < length (m_lines two_lines) \<and>
   undo (del two_lines) = Some (two_lines\<lparr>m_r := 1, m_c := 0\<rparr>)"
proof -
  have h: "cursor_ok two_lines" "m_c two_lines = length (cur_line two_lines)"
    "Suc (m_r two_lines) < length (m_lines two_lines)"
    by (simp_all add: two_lines_def cursor_ok_def)
  show ?thesis using h undo_after_del_join_cursor [OF h] by (simp add: two_lines_def)
qed

section \<open>Files\<close>

text \<open>C11. Saving the buffer and loading the same file back gives the same lines,
  the cursor at (0, 0) and an empty log, when no line holds a newline or ends in
  a carriage return.\<close>

theorem save_then_load_roundtrip:
  assumes "writable f" "m_lines e \<noteq> []"
    and "\<forall>l \<in> set (m_lines e). NL \<notin> set l \<and> (l = [] \<or> last l \<noteq> CR)"
  shows "load (snd (save writable f e fs)) f e2 = (True, \<lparr>m_lines = m_lines e, m_r = 0, m_c = 0, m_undo = []\<rparr>)"
  using assms by (rule load_saved)

theorem save_then_load_roundtrip_witness:
  "m_lines two_lines \<noteq> [] \<and>
   load (snd (save (\<lambda>_. True) ''a.txt'' two_lines (\<lambda>_. None))) ''a.txt'' cat_line =
     (True, \<lparr>m_lines = [''ab'', ''cd''], m_r = 0, m_c = 0, m_undo = []\<rparr>)"
proof -
  have h: "(\<lambda>_. True) ''a.txt''" "m_lines two_lines \<noteq> []"
    "\<forall>l \<in> set (m_lines two_lines). NL \<notin> set l \<and> (l = [] \<or> last l \<noteq> CR)"
    by (simp_all add: two_lines_def)
  show ?thesis
    using h save_then_load_roundtrip [of _ _ _ "\<lambda>_. None" cat_line, OF h] by (simp add: two_lines_def)
qed

text \<open>C12. \<open>load\<close> of a file that cannot be opened returns false and leaves
  the editor (lines, cursor and undo log) unchanged.\<close>

theorem load_missing_file_unchanged:
  "fs file = None \<Longrightarrow> load fs file e = (False, e)"
  by (simp add: load_def)

theorem load_missing_file_unchanged_witness:
  "(\<lambda>_. None) ''nope.txt'' = (None :: string option) \<and> load (\<lambda>_. None) ''nope.txt'' cat_typed = (False, cat_typed)"
  using load_missing_file_unchanged [of "\<lambda>_. None" "''nope.txt''" cat_typed] by simp

text \<open>C13. \<^verbatim>\<open>insert\<close> accepts a newline character and keeps it inside the
  current line; for every editor, saving the buffer after such an insert and
  loading the file back gives more lines than the buffer had, so the round trip
  of C11 fails for it.\<close>

theorem newline_insert_breaks_roundtrip:
  assumes "cursor_ok e" "writable f"
  shows "length (m_lines (insert_ed NL e)) <
    length (m_lines (snd (load (snd (save writable f (insert_ed NL e) fs)) f e2)))"
proof -
  let ?l = "take (m_c e) (cur_line e) @ NL # drop (m_c e) (cur_line e)"
  have lines: "m_lines (insert_ed NL e) = (m_lines e)[m_r e := ?l]"
    by (simp add: insert_ed_def insert_one_def Let_def)
  with assms(1) have "?l \<in> set (m_lines (insert_ed NL e))" "m_lines (insert_ed NL e) \<noteq> []"
    by (auto simp: cursor_ok_def set_update_memI)
  moreover have "0 < count_list ?l NL" by simp
  ultimately have pos: "0 < sum_list (map (\<lambda>l. count_list l NL) (m_lines (insert_ed NL e)))"
    using member_le_sum_list [of "count_list ?l NL" "map (\<lambda>l. count_list l NL) (m_lines (insert_ed NL e))"]
    by force
  have "length (m_lines (snd (load (snd (save writable f (insert_ed NL e) fs)) f e2))) =
      length (m_lines (insert_ed NL e)) + sum_list (map (\<lambda>l. count_list l NL) (m_lines (insert_ed NL e)))"
    using assms(2) \<open>m_lines (insert_ed NL e) \<noteq> []\<close> by (rule load_saved_length)
  with pos show ?thesis by simp
qed

theorem newline_insert_breaks_roundtrip_witness:
  "length (m_lines (insert_ed NL cat_line)) = 1 \<and>
   1 < length (m_lines (snd (load (snd (save (\<lambda>_. True) ''a.txt'' (insert_ed NL cat_line) (\<lambda>_. None))) ''a.txt'' cat_line)))"
proof -
  have h: "cursor_ok cat_line" "(\<lambda>_. True) ''a.txt''" by (simp_all add: cat_line_def cursor_ok_def)
  have "length (m_lines (insert_ed NL cat_line)) = 1" by (simp add: cat_line_def insert_ed_def insert_one_def)
  moreover note newline_insert_breaks_roundtrip [of cat_line "\<lambda>_. True" "''a.txt''" "\<lambda>_. None" cat_line, OF h]
  ultimately show ?thesis by simp
qed

section \<open>The undo log alone\<close>

text \<open>C14. On a non-empty log, \<open>get\<close> pops a non-empty prefix of it, and
  accounts for every record it pops: the text it returns for \<open>INSERT\<close> has one
  character per popped record, the count it returns for \<open>DELETE\<close> is the number
  of popped records.\<close>

theorem get_pops_and_accounts:
  assumes "get out stk = (a, out', stk')" "stk \<noteq> []"
  shows "\<exists>k. 0 < k \<and> stk' = drop k stk \<and> (a = INSERT \<longrightarrow> length (out_text out') = k) \<and>
           (a = DELETE \<longrightarrow> out_count out' = int k)"
proof -
  obtain cur rest where stk: "stk = cur # rest" using assms(2) by (cases stk) auto
  from get_pops [OF assms(1) [unfolded stk]] obtain k where
    "stk' = drop k rest" "a = INSERT \<longrightarrow> length (out_text out') = Suc k"
    "a = DELETE \<longrightarrow> out_count out' = int (Suc k)" by blast
  then show ?thesis using stk by (intro exI [of _ "Suc k"]) simp
qed

theorem get_pops_and_accounts_witness:
  "get \<lparr>out_row = 0, out_col = 3, out_count = 0, out_text = []\<rparr> (m_undo cat_typed) =
     (DELETE, \<lparr>out_row = 0, out_col = 0, out_count = 3, out_text = []\<rparr>, []) \<and> m_undo cat_typed \<noteq> [] \<and>
   (\<exists>k. 0 < k \<and> [] = drop k (m_undo cat_typed) \<and> (DELETE = INSERT \<longrightarrow> length ([]::string) = k) \<and>
           (DELETE = DELETE \<longrightarrow> (3::int) = int k))"
proof -
  have h: "get \<lparr>out_row = 0, out_col = 3, out_count = 0, out_text = []\<rparr> (m_undo cat_typed) =
     (DELETE, \<lparr>out_row = 0, out_col = 0, out_count = 3, out_text = []\<rparr>, [])" "m_undo cat_typed \<noteq> []"
    by (simp_all add: cat_typed_def)
  show ?thesis using h get_pops_and_accounts [OF h] by simp
qed

text \<open>C15. \<open>get\<close> answers \<open>ERROR\<close> exactly when the log is empty or its top
  record is an \<open>ERROR\<close> record; on an empty log it changes neither the log nor
  the output parameters.\<close>

theorem get_error_iff:
  "(fst (get out stk) = ERROR \<longleftrightarrow> stk = [] \<or> action (hd stk) = ERROR) \<and> get out [] = (ERROR, out, [])"
  by (simp add: get_ERROR_iff)

section \<open>Reading the buffer\<close>

text \<open>C16. \<open>getLines\<close> fails with \<open>-1\<close>, leaving the vector alone, exactly when
  a start row or a count is negative or the start row is past the end; otherwise it
  returns the \<open>numRows\<close> lines from \<open>startRow\<close> on, as many as exist, and their
  number.\<close>

theorem getLines_contract:
  "(fst (getLines s n ls e) = -1 \<longleftrightarrow> s < 0 \<or> n < 0 \<or> int (length (m_lines e)) < s) \<and>
   (0 \<le> s \<and> 0 \<le> n \<and> s \<le> int (length (m_lines e)) \<longrightarrow>
      fst (getLines s n ls e) = min n (int (length (m_lines e)) - s) \<and>
      length (snd (getLines s n ls e)) = nat (fst (getLines s n ls e)) \<and>
      (\<forall>i < length (snd (getLines s n ls e)). snd (getLines s n ls e) ! i = m_lines e ! (nat s + i)))"
  by (auto simp: getLines_def Let_def min_def)

theorem getLines_contract_witness:
  "(0::int) \<le> 1 \<and> (0::int) \<le> 5 \<and> 1 \<le> int (length (m_lines two_lines)) \<and>
   getLines 1 5 [] two_lines = (1, [''cd''])"
proof -
  have "fst (getLines 1 5 [] two_lines) = 1 \<and> length (snd (getLines 1 5 [] two_lines)) = 1 \<and>
        snd (getLines 1 5 [] two_lines) ! 0 = ''cd''"
    using getLines_contract [of 1 5 "[]" two_lines] by (simp add: two_lines_def)
  then show ?thesis by (cases "getLines 1 5 [] two_lines") (auto simp: two_lines_def length_Suc_conv)
qed

section \<open>The spell checker\<close>

text \<open>C17. After \<^verbatim>\<open>load\<close> of a dictionary file into a fresh checker, a word
  of letters and apostrophes is accepted exactly when its lowercase form is one of
  the file's lines, lowercased and with the characters other than letters and
  apostrophes removed.\<close>

theorem dictionary_lookup_exact:
  assumes "fs path = Some content" "\<forall>x \<in> set w. valid x"
  shows "checkWord (snd (load_dict fs path (new_node c))) w = Some (map tolower w \<in> clean ` set (getlines [] content))"
proof -
  have "wf_node (snd (load_dict fs path (new_node c))) \<and>
    (\<forall>w. in_dict (snd (load_dict fs path (new_node c))) w \<longleftrightarrow> w \<in> clean ` set (getlines [] content))"
    using fold_ins_loop_spec [OF wf_new_node, of "getlines [] content" c] assms(1)
    by (simp add: load_dict_def not_in_dict_new_node)
  with checkWord_valid assms(2) show ?thesis by simp
qed

theorem dictionary_lookup_exact_witness:
  "checkWord small_dict ''CB'' = Some True \<and> checkWord small_dict ''ba'' = Some False"
proof -
  have f: "dict_file ''words.txt'' = Some (''ab'' @ NL # ''cb'' @ CR # NL # ''Db'' @ [NL])"
    by (simp add: dict_file_def)
  have v: "\<forall>x \<in> set ''CB''. valid x" "\<forall>x \<in> set ''ba''. valid x"
    by (simp_all add: valid_def getIndex_def tolower_def)
  have "clean ` set (getlines [] (''ab'' @ NL # ''cb'' @ CR # NL # ''Db'' @ [NL])) = {''ab'', ''cb'', ''db''}"
    by code_simp
  moreover have "map tolower ''CB'' = ''cb''" "map tolower ''ba'' = ''ba''"
    by code_simp+
  ultimately show ?thesis
    using dictionary_lookup_exact [where fs = dict_file and path = "''words.txt''" and w = "''CB''" and c = "CHR 0x00", OF f v(1)]
      dictionary_lookup_exact [where fs = dict_file and path = "''words.txt''" and w = "''ba''" and c = "CHR 0x00", OF f v(2)]
    by (simp add: small_dict_def)
qed

text \<open>C18. \<^verbatim>\<open>load\<close> of a readable dictionary file into a well-formed trie
  succeeds, keeps the trie well formed, and adds exactly the cleaned lines of the
  file to its words (the words already there stay).\<close>

theorem load_dict_adds_lines:
  assumes "fs path = Some content" "wf_node h"
  shows "fst (load_dict fs path h) \<and> wf_node (snd (load_dict fs path h)) \<and>
    (\<forall>w. in_dict (snd (load_dict fs path h)) w \<longleftrightarrow> w \<in> clean ` set (getlines [] content) \<or> in_dict h w)"
  using fold_ins_loop_spec [OF assms(2), of "getlines [] content"] assms(1)
  by (simp add: load_dict_def)

theorem load_dict_adds_lines_witness:
  "fst (load_dict dict_file ''more.txt'' small_dict) = False \<and>
   fst (load_dict dict_file ''words.txt'' small_dict) \<and> wf_node (snd (load_dict dict_file ''words.txt'' small_dict))"
proof -
  have f: "dict_file ''words.txt'' = Some (''ab'' @ NL # ''cb'' @ CR # NL # ''Db'' @ [NL])"
    by (simp add: dict_file_def)
  have w: "wf_node small_dict" unfolding small_dict_def dict_file_def by code_simp
  have "fst (load_dict dict_file ''more.txt'' small_dict) = False"
    by (simp add: load_dict_def dict_file_def)
  with load_dict_adds_lines [where fs = dict_file and path = "''words.txt''", OF f w] show ?thesis by simp
qed

text \<open>C19. On a well-formed trie, \<^verbatim>\<open>checkWord\<close> of a word of letters and
  apostrophes answers whether the lowercased word is one of the trie's words.\<close>

theorem checkWord_refines_in_dict:
  "wf_node h \<Longrightarrow> \<forall>x \<in> set w. valid x \<Longrightarrow> checkWord h w = Some (in_dict h (map tolower w))"
  by (rule checkWord_valid)

theorem checkWord_refines_in_dict_witness:
  "checkWord small_dict ''dB'' = Some True"
proof -
  have h: "wf_node small_dict" "\<forall>x \<in> set ''dB''. valid x"
    by (simp add: small_dict_def dict_file_def, code_simp) (simp add: valid_def getIndex_def tolower_def)
  have "in_dict small_dict (map tolower ''dB'')"
    unfolding small_dict_def dict_file_def by code_simp
  with checkWord_refines_in_dict [OF h] show ?thesis by simp
qed

text \<open>C20. On a well-formed dictionary, \<^verbatim>\<open>spellCheckLine\<close> returns the
  positions \<open>(start, end)\<close> of exactly the runs of letters and apostrophes that
  cannot be extended on either side and are no dictionary word, in increasing
  order.\<close>

theorem spellCheckLine_maximal_runs:
  assumes "wf_node h"
  shows "\<exists>ps. spellCheckLine h line = Some ps \<and> sorted_wrt (\<lambda>a b. snd a < fst b) ps \<and>
    set ps = (\<lambda>(s, e). (int s, int e)) `
      {(s, e). is_run line s e \<and> \<not> in_dict h (map tolower (take (Suc e - s) (drop s line)))}"
proof -
  have eq: "spellCheckLine h line = Some (bad_runs h line)"
    by (simp add: spellCheckLine_def bad_runs_def line_loop_runs assms)
  have "sorted_wrt (\<lambda>a b. snd a < fst b) (bad_runs h line)"
    using runs_from_sorted [of line 0]
    by (simp add: bad_runs_def sorted_wrt_map sorted_wrt_filter case_prod_beta del: runs_from.simps)
  moreover have "set (bad_runs h line) = (\<lambda>(s, e). (int s, int e)) `
      {(s, e). is_run line s e \<and> \<not> in_dict h (map tolower (take (Suc e - s) (drop s line)))}"
    by (auto simp: bad_runs_def runs_from_runs simp del: runs_from.simps)
  ultimately show ?thesis using eq by blast
qed

theorem spellCheckLine_maximal_runs_witness:
  "is_run ''Ab'xb'' 0 4 \<and> (\<exists>ps. spellCheckLine small_dict ''Ab'xb'' = Some ps \<and> (0, 4) \<in> set ps)"
proof -
  have h: "wf_node small_dict" unfolding small_dict_def dict_file_def by code_simp
  have r: "is_run ''Ab'xb'' 0 4" by code_simp
  have t: "map tolower (take (Suc 4 - 0) (drop 0 ''Ab'xb'')) = ''ab'xb''" by code_simp
  have n: "\<not> in_dict small_dict ''ab'xb''" unfolding small_dict_def dict_file_def by code_simp
  from spellCheckLine_maximal_runs [OF h, of "''Ab'xb''"] obtain ps where
    ps: "spellCheckLine small_dict ''Ab'xb'' = Some ps"
      "set ps = (\<lambda>(s, e). (int s, int e)) `
        {(s, e). is_run ''Ab'xb'' s e \<and> \<not> in_dict small_dict (map tolower (take (Suc e - s) (drop s ''Ab'xb'')))}"
    by blast
  have "(0::nat, 4::nat) \<in> {(s, e). is_run ''Ab'xb'' s e \<and> \<not> in_dict small_dict (map tolower (take (Suc e - s) (drop s ''Ab'xb'')))}"
    using r t n by simp
  then have "(0, 4) \<in> set ps" unfolding ps(2) by force
  with r ps(1) show ?thesis by blast
qed

text \<open>C21. Every suggestion \<^verbatim>\<open>spellCheck\<close> returns for a word not in a
  well-formed dictionary is a word of the dictionary obtained from the lowercased
  word by changing exactly one character.\<close>

theorem spellCheck_suggestions_sound:
  assumes "wf_node h" "spellCheck h word maxS sugs0 = Some (False, sugs)"
  shows "\<forall>x \<in> set sugs. in_dict h x \<and>
    (\<exists>i c. i < length word \<and> c \<noteq> tolower (word ! i) \<and> x = (map tolower word)[i := c])"
proof -
  from assms(2) have "suggest maxS word 0 0 (Some h) [] [] = Some sugs"
    by (auto simp: spellCheck_def split: option.splits bool.splits)
  from suggest_sound [where h = h and curSug = "[]" and j = 0 and word = word, OF assms(1) _ _ _ this]
  show ?thesis by simp
qed

theorem spellCheck_suggestions_sound_witness:
  "spellCheck small_dict ''xb'' 2 [''old''] = Some (False, [''ab'', ''cb'', ''db''])"
proof -
  have "spellCheck small_dict ''xb'' 2 [''old''] = Some (False, [''ab'', ''cb'', ''db''])"
    unfolding small_dict_def dict_file_def by code_simp
  moreover have "wf_node small_dict" unfolding small_dict_def dict_file_def by code_simp
  ultimately show ?thesis using spellCheck_suggestions_sound by blast
qed

text \<open>C22. On a well-formed dictionary, \<^verbatim>\<open>spellCheck\<close> of a word of letters
  and apostrophes never reads outside a child array; it answers whether the
  lowercased word is in the dictionary, and leaves the suggestion vector untouched
  when it is.\<close>

theorem spellCheck_total:
  assumes "wf_node h" "\<forall>x \<in> set word. valid x"
  shows "\<exists>sugs'. spellCheck h word maxS sugs =
    Some (in_dict h (map tolower word), if in_dict h (map tolower word) then sugs else sugs')"
proof -
  have "suggest maxS word 0 0 (Some h) [] [] \<noteq> None"
    using suggest_total [OF assms] .
  with checkWord_valid [OF assms] show ?thesis
    by (auto simp: spellCheck_def)
qed

theorem spellCheck_total_witness:
  "spellCheck small_dict ''CB'' 3 [''old''] = Some (True, [''old''])"
proof -
  have h: "wf_node small_dict" "\<forall>x \<in> set ''CB''. valid x"
    by (simp add: small_dict_def dict_file_def, code_simp) (simp add: valid_def getIndex_def tolower_def)
  have "in_dict small_dict (map tolower ''CB'')"
    unfolding small_dict_def dict_file_def by code_simp
  with spellCheck_total [OF h, of 3 "[''old'']"] show ?thesis by simp
qed



text \<open>C24. On a well-formed dictionary, \<^verbatim>\<open>checkWord\<close> reads
  \<^verbatim>\<open>next[-1]\<close>, outside the child array, exactly when the word consists of
  a run of letters and apostrophes that is a path of the trie, followed by a
  character that is neither; \<^verbatim>\<open>spellCheck\<close>, which calls it first, then
  reads outside the array too.\<close>

theorem checkWord_out_of_bounds_iff:
  assumes "wf_node h"
  shows "(checkWord h w = None \<longleftrightarrow>
      (\<exists>p x rest. w = p @ x # rest \<and> (\<forall>y \<in> set p. valid y) \<and> \<not> valid x \<and> has_path h (map tolower p))) \<and>
    (checkWord h w = None \<longrightarrow> spellCheck h w maxS sugs = None)"
proof -
  have "checkWord h w = None \<longrightarrow> spellCheck h w maxS sugs = None"
    by (simp add: spellCheck_def)
  with checkWord_None_iff [OF assms, of w] show ?thesis by blast
qed

theorem checkWord_out_of_bounds_iff_witness:
  "checkWord small_dict ''a1'' = None \<and> spellCheck small_dict ''a1'' 5 [] = None"
proof -
  have h: "wf_node small_dict" unfolding small_dict_def dict_file_def by code_simp
  have "has_path small_dict (map tolower ''a'')" unfolding small_dict_def dict_file_def by code_simp
  moreover have "valid (CHR ''a'')" "\<not> valid (CHR ''1'')" by code_simp+
  ultimately have "\<exists>p x rest. ''a1'' = p @ x # rest \<and> (\<forall>y \<in> set p. valid y) \<and> \<not> valid x \<and>
      has_path small_dict (map tolower p)"
    by (intro exI [of _ "''a''"] exI [of _ "CHR ''1''"] exI [of _ "[]"]) simp
  with checkWord_out_of_bounds_iff [OF h, of "''a1''" 5 "[]"] show ?thesis by blast
qed

text \<open>C25. Each of \<^verbatim>\<open>del\<close>, \<^verbatim>\<open>backspace\<close>, \<^verbatim>\<open>enter\<close> and
  \<^verbatim>\<open>insert\<close> of a character other than a tab either leaves the whole state
  unchanged (at an edge of the buffer) or changes the lines and pushes exactly one
  record on the undo log.\<close>

theorem edit_logs_one_record:
  assumes "cursor_ok e" "c \<in> {Del, Backspace, Enter} \<or> (\<exists>x. c = Insert x \<and> x \<noteq> CHR 0x09)"
    and "step c e = Some e'"
  shows "e' = e \<or> (m_lines e' \<noteq> m_lines e \<and> m_undo e' \<noteq> [] \<and> tl (m_undo e') = m_undo e)"
  using assms del_logs_one [OF assms(1)] backspace_logs_one [OF assms(1)]
    enter_logs_one [OF assms(1)] insert_one_logs_one [OF assms(1)]
  by (auto simp: insert_ed_def)

theorem edit_logs_one_record_witness:
  "step Del cat_line = Some cat_line \<and> step Backspace cat_line = Some (backspace cat_line) \<and>
   m_lines (backspace cat_line) = [''ca''] \<and> tl (m_undo (backspace cat_line)) = []"
proof -
  have h: "cursor_ok cat_line" "Backspace \<in> {Del, Backspace, Enter} \<or> (\<exists>x. Backspace = Insert x \<and> x \<noteq> CHR 0x09)"
    "step Backspace cat_line = Some (backspace cat_line)"
    by (simp_all add: cat_line_def cursor_ok_def)
  have "step Del cat_line = Some cat_line" by (simp add: cat_line_def del_def)
  moreover have "m_lines (backspace cat_line) = [''ca'']" by (simp add: cat_line_def backspace_def)
  ultimately show ?thesis using edit_logs_one_record [OF h] h(3) by (auto simp: cat_line_def)
qed

end
